theory Spec2Isabelle
  imports Main "HOL-Library.Sublist"
begin

section \<open>Errors\<close>

text \<open>
  The failures of the session layer, under the names of the specification's taxonomy.
  \<open>NotAuthenticated\<close> is \<open>Error('Authentication required. Please run notebook-mcp-auth')\<close>
  of \<open>getSavedCookies\<close>; \<open>AuthenticationTimeout\<close> is
  \<open>Error('Authentication timed out or browser was closed.')\<close> of \<open>runAuthentication\<close>.
  \<open>SessionExpired\<close> is the failure of the bootstrap. The remaining constructors are
  failures of the platform calls the sources make: reading a path that holds no file
  (\<open>FsError\<close>), \<open>JSON.parse\<close> on a text it does not accept (\<open>JsonSyntaxError\<close>) and a
  method call on \<open>undefined\<close> (\<open>TypeError\<close>).
\<close>

datatype error =
    NotAuthenticated
  | AuthenticationTimeout
  | SessionExpired
  | FsError
  | JsonSyntaxError
  | TypeError

section \<open>JavaScript strings and insertion-ordered maps\<close>

text \<open>
  Strings are character lists. The functions below are the fragments of the ECMAScript
  string methods that the sources call: \<open>indexOf\<close>, \<open>includes\<close> (here \<open>str_includes\<close>), \<open>substring\<close>
  (with its clamping of out-of-range arguments and its swap of reversed bounds),
  \<open>split\<close> with a non-empty separator and \<open>Array.prototype.join\<close>.
\<close>

fun indexOf :: "string \<Rightarrow> string \<Rightarrow> int" where
  "indexOf [] pat = (if pat = [] then 0 else - 1)"
| "indexOf (c # cs) pat =
     (if prefix pat (c # cs) then 0
      else (let i = indexOf cs pat in if i < 0 then - 1 else i + 1))"

definition str_includes :: "string \<Rightarrow> string \<Rightarrow> bool" where
  "str_includes s pat = (0 \<le> indexOf s pat)"

definition substring :: "string \<Rightarrow> int \<Rightarrow> int \<Rightarrow> string" where
  "substring s a b =
     (let n = int (length s);
          a' = max 0 (min a n);
          b' = max 0 (min b n);
          lo = min a' b';
          hi = max a' b'
      in take (nat (hi - lo)) (drop (nat lo) s))"

definition substring_from :: "string \<Rightarrow> int \<Rightarrow> string" where
  "substring_from s a = substring s a (int (length s))"

text \<open>
  \<open>s.split(sep)\<close> for a non-empty separator: the leftmost occurrence of the separator
  ends the current piece, the search resumes behind it, and the result always has at
  least one piece. The separator is given as its first character and the rest.
\<close>

fun split_str :: "char \<Rightarrow> string \<Rightarrow> string \<Rightarrow> string list" where
  "split_str a as [] = [[]]"
| "split_str a as (c # cs) =
     (if c = a \<and> prefix as cs then [] # split_str a as (drop (length as) cs)
      else (case split_str a as cs of
              [] \<Rightarrow> [[c]]
            | p # ps \<Rightarrow> (c # p) # ps))"

fun join :: "string \<Rightarrow> string list \<Rightarrow> string" where
  "join sep [] = []"
| "join sep [x] = x"
| "join sep (x # y # ys) = x @ sep @ join sep (y # ys)"

text \<open>
  Whether the separator occurs in a string; a notion of the specification side, used to
  state when joining pieces and splitting again returns the pieces.
\<close>

fun has_sep :: "char \<Rightarrow> string \<Rightarrow> string \<Rightarrow> bool" where
  "has_sep a as [] = False"
| "has_sep a as (c # cs) = ((c = a \<and> prefix as cs) \<or> has_sep a as cs)"

text \<open>
  A JavaScript \<open>Map\<close> keeps its keys in the order of their first insertion; \<open>set\<close> on a
  key already present replaces the value in place. An association list with distinct keys
  carries both the entries and their order.
\<close>

fun map_set :: "('k \<times> 'v) list \<Rightarrow> 'k \<Rightarrow> 'v \<Rightarrow> ('k \<times> 'v) list" where
  "map_set [] k v = [(k, v)]"
| "map_set ((k', v') # m) k v =
     (if k' = k then (k, v) # m else (k', v') # map_set m k v)"

fun map_has :: "('k \<times> 'v) list \<Rightarrow> 'k \<Rightarrow> bool" where
  "map_has [] k = False"
| "map_has ((k', v') # m) k = (k' = k \<or> map_has m k)"

definition format_entry :: "string \<times> string \<Rightarrow> string" where
  "format_entry e = fst e @ ''='' @ snd e"

section \<open>Session extraction: the cookie map of \<open>AuthManager.runAuthentication\<close>\<close>

text \<open>
  A cookie as Playwright reports it, with the fields that the sources and the scoping rule
  of \<open>context.cookies(url)\<close> read. The loop
  \<open>for (const c of allCookies) cookieMap.set(c.name, c.value)\<close> of \<open>src/auth.ts\<close> is
  \<open>cookieMap_of\<close>, and the string built from the map's entries is \<open>cookieString_of\<close>.
\<close>

record cookie =
  c_name :: string
  c_value :: string
  c_domain :: string
  c_path :: string
  c_secure :: bool

definition cookieMap_of :: "cookie list \<Rightarrow> (string \<times> string) list" where
  "cookieMap_of allCookies = foldl (\<lambda>m c. map_set m (c_name c) (c_value c)) [] allCookies"

definition cookieString_of :: "(string \<times> string) list \<Rightarrow> string" where
  "cookieString_of cookieMap = join ''; '' (map format_entry cookieMap)"

text \<open>The value that the last cookie named \<open>n\<close> in the input order carries, if there is one.\<close>

definition last_value :: "string \<Rightarrow> cookie list \<Rightarrow> string option" where
  "last_value n cs =
     (case filter (\<lambda>c. c_name c = n) cs of
        [] \<Rightarrow> None
      | x # xs \<Rightarrow> Some (c_value (last (x # xs))))"

section \<open>The dedup utility \<open>fix-cookies.ts\<close>\<close>

text \<open>
  The loop of \<open>examples/fix-cookies.ts\<close>: each piece of \<open>data.cookies.split('; ')\<close> is cut at
  its first \<open>=\<close> (\<open>indexOf\<close> gives \<open>-1\<close> when there is none) and enters the map \<open>seen\<close> unless
  its name is there already. \<open>fixCookies\<close> returns the deduplicated string with the two
  counts the script prints.
\<close>

definition pair_name :: "string \<Rightarrow> string" where
  "pair_name pair = substring pair 0 (indexOf pair ''='')"

definition pair_value :: "string \<Rightarrow> string" where
  "pair_value pair = substring_from pair (indexOf pair ''='' + 1)"

definition seen_step :: "(string \<times> string) list \<Rightarrow> string \<Rightarrow> (string \<times> string) list" where
  "seen_step seen pair =
     (if \<not> map_has seen (pair_name pair) then map_set seen (pair_name pair) (pair_value pair)
      else seen)"

definition seen_of :: "string list \<Rightarrow> (string \<times> string) list" where
  "seen_of pairs = foldl seen_step [] pairs"

record fix_report =
  deduped :: string
  before_count :: nat
  after_count :: nat

definition fixCookies :: "string \<Rightarrow> fix_report" where
  "fixCookies cookies =
     (let pairs = split_str CHR '';'' '' '' cookies;
          seen = seen_of pairs
      in \<lparr> deduped = join ''; '' (map format_entry seen),
           before_count = length pairs,
           after_count = length seen \<rparr>)"

text \<open>
  The pairs the utility extracts from a cookie string: the name and the value of each
  piece, in the order of the pieces.
\<close>

definition pairs_of :: "string \<Rightarrow> (string \<times> string) list" where
  "pairs_of cookies =
     map (\<lambda>pair. (pair_name pair, pair_value pair)) (split_str CHR '';'' '' '' cookies)"

section \<open>Decimal and ISO-8601 formatting\<close>

definition digit_char :: "nat \<Rightarrow> char" where
  "digit_char d =
     (if d = 0 then CHR ''0'' else if d = 1 then CHR ''1'' else if d = 2 then CHR ''2''
      else if d = 3 then CHR ''3'' else if d = 4 then CHR ''4'' else if d = 5 then CHR ''5''
      else if d = 6 then CHR ''6'' else if d = 7 then CHR ''7'' else if d = 8 then CHR ''8''
      else CHR ''9'')"

definition is_digit :: "char \<Rightarrow> bool" where
  "is_digit c = (48 \<le> (of_char c :: nat) \<and> (of_char c :: nat) \<le> 57)"

text \<open>Template-literal interpolation of a non-negative integer: its decimal digits.\<close>

function show_nat :: "nat \<Rightarrow> string" where
  "show_nat n = (if n < 10 then [digit_char n] else show_nat (n div 10) @ [digit_char (n mod 10)])"
  by pat_completeness auto
termination
  by (relation "measure id") auto

declare show_nat.simps [simp del]

text \<open>The \<open>w\<close> low decimal digits of \<open>n\<close>, zero-padded: the fixed-width fields of a timestamp.\<close>

fun pad_dec :: "nat \<Rightarrow> nat \<Rightarrow> string" where
  "pad_dec 0 n = []"
| "pad_dec (Suc w) n = pad_dec w (n div 10) @ [digit_char (n mod 10)]"

text \<open>
  \<open>new Date()\<close> is read as the clock's UTC calendar fields, each within its range;
  \<open>toISOString\<close> prints them as \<open>YYYY-MM-DDTHH:mm:ss.sssZ\<close>, with the expanded six-digit
  signed year outside 0..9999.
\<close>

record utc_time =
  t_year :: int
  t_month :: nat
  t_day :: nat
  t_hours :: nat
  t_minutes :: nat
  t_seconds :: nat
  t_millis :: nat

definition year_string :: "int \<Rightarrow> string" where
  "year_string y =
     (if 0 \<le> y \<and> y \<le> 9999 then pad_dec 4 (nat y)
      else (if y < 0 then ''-'' else ''+'') @ pad_dec 6 (nat \<bar>y\<bar>))"

definition toISOString :: "utc_time \<Rightarrow> string" where
  "toISOString t =
     year_string (t_year t) @ ''-'' @ pad_dec 2 (t_month t) @ ''-'' @ pad_dec 2 (t_day t) @
     ''T'' @ pad_dec 2 (t_hours t) @ '':'' @ pad_dec 2 (t_minutes t) @ '':'' @
     pad_dec 2 (t_seconds t) @ ''.'' @ pad_dec 3 (t_millis t) @ ''Z''"

text \<open>
  The shape of an ISO-8601 UTC timestamp: in the pattern, \<open>d\<close> stands for one decimal digit
  and every other character for itself.
\<close>

fun matches_pattern :: "string \<Rightarrow> string \<Rightarrow> bool" where
  "matches_pattern [] [] = True"
| "matches_pattern (p # ps) (c # cs) =
     ((if p = CHR ''d'' then is_digit c else c = p) \<and> matches_pattern ps cs)"
| "matches_pattern _ _ = False"

definition is_iso8601 :: "string \<Rightarrow> bool" where
  "is_iso8601 s =
     (matches_pattern ''dddd-dd-ddTdd:dd:dd.dddZ'' s \<or>
      matches_pattern ''+dddddd-dd-ddTdd:dd:dd.dddZ'' s \<or>
      matches_pattern ''-dddddd-dd-ddTdd:dd:dd.dddZ'' s)"

section \<open>JSON text of the session record\<close>

text \<open>
  \<open>JSON.stringify\<close> quotes a string by escaping the quotation mark, the backslash and the
  control characters below U+0020 (the short escapes where they exist, \<open>\u00xx\<close> with
  lower-case digits otherwise) and copies every other character.
\<close>

definition dquote :: char where "dquote = CHR 0x22"
definition backslash :: char where "backslash = CHR 0x5C"
definition newline :: char where "newline = CHR 0x0A"

definition hex_digit :: "nat \<Rightarrow> char" where
  "hex_digit d = (if d < 10 then char_of (48 + d) else char_of (87 + d))"

definition json_escape :: "char \<Rightarrow> string" where
  "json_escape c =
     (if c = dquote then [backslash, dquote]
      else if c = backslash then [backslash, backslash]
      else if c = CHR 0x08 then [backslash, CHR ''b'']
      else if c = CHR 0x0C then [backslash, CHR ''f'']
      else if c = CHR 0x0A then [backslash, CHR ''n'']
      else if c = CHR 0x0D then [backslash, CHR ''r'']
      else if c = CHR 0x09 then [backslash, CHR ''t'']
      else if (of_char c :: nat) < 32 then
        [backslash, CHR ''u'', CHR ''0'', CHR ''0'',
         hex_digit ((of_char c :: nat) div 16), hex_digit ((of_char c :: nat) mod 16)]
      else [c])"

definition quoteJSON :: "string \<Rightarrow> string" where
  "quoteJSON s = dquote # concat (map json_escape s) @ [dquote]"

text \<open>
  \<open>JSON.stringify(obj, null, 2)\<close> for an object whose properties are all strings, as both
  writers of \<open>auth.json\<close> build it: one member per line behind a two-space indent.
\<close>

definition stringify_member :: "string \<times> string \<Rightarrow> string" where
  "stringify_member m = ''  '' @ quoteJSON (fst m) @ '': '' @ quoteJSON (snd m)"

definition stringify :: "(string \<times> string) list \<Rightarrow> string" where
  "stringify obj =
     (if obj = [] then ''{}''
      else ''{'' @ [newline] @ join ('','' @ [newline]) (map stringify_member obj) @ [newline] @ ''}'')"

text \<open>
  \<open>JSON.parse\<close> on the same fragment: a text that is one object whose member values are
  strings. Characters are bytes here, so an escape \<open>\uXXXX\<close> above \<open>\u00ff\<close> has no
  value in the model. \<open>None\<close> is the \<open>SyntaxError\<close> of \<open>JSON.parse\<close>, and also the answer for
  a JSON text outside the fragment. A repeated member name keeps its first position and
  its last value, as property definition on a JavaScript object does.
\<close>

definition hex_val :: "char \<Rightarrow> nat option" where
  "hex_val c =
     (let n = (of_char c :: nat)
      in if 48 \<le> n \<and> n \<le> 57 then Some (n - 48)
         else if 97 \<le> n \<and> n \<le> 102 then Some (n - 87)
         else if 65 \<le> n \<and> n \<le> 70 then Some (n - 55)
         else None)"

definition hex4 :: "char \<Rightarrow> char \<Rightarrow> char \<Rightarrow> char \<Rightarrow> nat option" where
  "hex4 a b c d =
     (case (hex_val a, hex_val b, hex_val c, hex_val d) of
        (Some x, Some y, Some z, Some w) \<Rightarrow> Some (((x * 16 + y) * 16 + z) * 16 + w)
      | _ \<Rightarrow> None)"

definition unescape_char :: "char \<Rightarrow> char option" where
  "unescape_char e =
     (if e = dquote then Some dquote
      else if e = backslash then Some backslash
      else if e = CHR ''/'' then Some CHR ''/''
      else if e = CHR ''b'' then Some (CHR 0x08)
      else if e = CHR ''f'' then Some (CHR 0x0C)
      else if e = CHR ''n'' then Some (CHR 0x0A)
      else if e = CHR ''r'' then Some (CHR 0x0D)
      else if e = CHR ''t'' then Some (CHR 0x09)
      else None)"

definition cons_result :: "char \<Rightarrow> (string \<times> string) option \<Rightarrow> (string \<times> string) option" where
  "cons_result c r = (case r of None \<Rightarrow> None | Some (s, rest) \<Rightarrow> Some (c # s, rest))"

text \<open>The characters of a string literal behind its opening quote, up to the closing one.\<close>

fun parse_chars :: "string \<Rightarrow> (string \<times> string) option" where
  "parse_chars [] = None"
| "parse_chars (c # cs) =
     (if c = dquote then Some ([], cs)
      else if c = backslash then
        (case cs of
           [] \<Rightarrow> None
         | e # es \<Rightarrow>
             if e = CHR ''u'' then
               (case es of
                  h1 # h2 # h3 # h4 # rest \<Rightarrow>
                    (case hex4 h1 h2 h3 h4 of
                       None \<Rightarrow> None
                     | Some n \<Rightarrow> if n < 256 then cons_result (char_of n) (parse_chars rest) else None)
                | _ \<Rightarrow> None)
             else
               (case unescape_char e of
                  None \<Rightarrow> None
                | Some ch \<Rightarrow> cons_result ch (parse_chars es)))
      else if (of_char c :: nat) < 32 then None
      else cons_result c (parse_chars cs))"

definition parse_string :: "string \<Rightarrow> (string \<times> string) option" where
  "parse_string s = (case s of [] \<Rightarrow> None | c # cs \<Rightarrow> if c = dquote then parse_chars cs else None)"

definition is_ws :: "char \<Rightarrow> bool" where
  "is_ws c = (c = CHR '' '' \<or> c = CHR 0x09 \<or> c = CHR 0x0A \<or> c = CHR 0x0D)"

definition skip_ws :: "string \<Rightarrow> string" where
  "skip_ws s = dropWhile is_ws s"

text \<open>One member \<open>"name": "value"\<close>, with the white space around its parts.\<close>

definition parse_member :: "string \<Rightarrow> ((string \<times> string) \<times> string) option" where
  "parse_member s =
     (case parse_string (skip_ws s) of
        None \<Rightarrow> None
      | Some (k, r1) \<Rightarrow>
          (case skip_ws r1 of
             [] \<Rightarrow> None
           | c # r2 \<Rightarrow>
               if c = CHR '':'' then
                 (case parse_string (skip_ws r2) of
                    None \<Rightarrow> None
                  | Some (v, r3) \<Rightarrow> Some ((k, v), skip_ws r3))
               else None))"

text \<open>
  The members behind the opening brace, up to the closing one, which must end the text.
  \<open>acc\<close> is the object built so far.
\<close>

function parse_members :: "(string \<times> string) list \<Rightarrow> string \<Rightarrow> (string \<times> string) list option" where
  "parse_members acc s =
     (case parse_member s of
        None \<Rightarrow> None
      | Some (kv, r) \<Rightarrow>
          (case r of
             [] \<Rightarrow> None
           | c # r' \<Rightarrow>
               if c = CHR '','' then parse_members (map_set acc (fst kv) (snd kv)) r'
               else if c = CHR ''}'' then
                 (if skip_ws r' = [] then Some (map_set acc (fst kv) (snd kv)) else None)
               else None))"
  by pat_completeness auto
termination
proof (relation "measure (\<lambda>(acc, s). length s)")
  show "wf (measure (\<lambda>(acc :: (string \<times> string) list, s :: string). length s))"
    by simp
next
  fix acc :: "(string \<times> string) list" and s x2 kv r c r'
  assume pm: "parse_member s = Some x2" and x2: "(kv, r) = x2" and r: "r = c # r'"
  have ws: "\<And>u. length (skip_ws u) \<le> length u"
    unfolding skip_ws_def by (simp add: length_dropWhile_le)
  have chars: "\<And>u x v. parse_chars u = Some (x, v) \<Longrightarrow> length v < length u"
  proof -
    fix u x v
    show "parse_chars u = Some (x, v) \<Longrightarrow> length v < length u"
    proof (induction "length u" arbitrary: u x v rule: less_induct)
      case less
      show ?case
      proof (cases u)
        case Nil
        with less.prems show ?thesis by simp
      next
        case (Cons c cs)
        with less.prems show ?thesis
          by (auto simp: cons_result_def split: if_splits list.splits option.splits
                dest: less.hyps [rotated])
      qed
    qed
  qed
  have str: "\<And>u x v. parse_string u = Some (x, v) \<Longrightarrow> length v < length u"
    unfolding parse_string_def by (auto split: list.splits if_splits dest!: chars)
  obtain k v r1 where s1: "parse_string (skip_ws s) = Some (k, r1)"
    using pm unfolding parse_member_def by (auto split: option.splits)
  have "length r \<le> length r1"
  proof -
    obtain r2 v' r3 where a: "skip_ws r1 = CHR '':'' # r2"
      and b: "parse_string (skip_ws r2) = Some (v', r3)" and c: "r = skip_ws r3"
      using pm x2 s1 unfolding parse_member_def
      by (auto split: option.splits list.splits if_splits)
    have "length r \<le> length r3" using c ws by simp
    also have "\<dots> \<le> length (skip_ws r2)" using str [OF b] by simp
    also have "\<dots> \<le> length r2" by (rule ws)
    also have "\<dots> \<le> length (skip_ws r1)" using a by simp
    also have "\<dots> \<le> length r1" by (rule ws)
    finally show ?thesis .
  qed
  moreover have "length r1 < length (skip_ws s)" by (rule str [OF s1])
  moreover have "length (skip_ws s) \<le> length s" by (rule ws)
  ultimately show "((map_set acc (fst kv) (snd kv), r'), (acc, s)) \<in> measure (\<lambda>(acc, s). length s)"
    using r by simp
qed

declare parse_members.simps [simp del]

definition JSON_parse :: "string \<Rightarrow> (string \<times> string) list option" where
  "JSON_parse text =
     (case skip_ws text of
        [] \<Rightarrow> None
      | c # r \<Rightarrow>
          if c = CHR ''{'' then
            (case skip_ws r of
               [] \<Rightarrow> None
             | d # r' \<Rightarrow>
                 if d = CHR ''}'' then (if skip_ws r' = [] then Some [] else None)
                 else parse_members [] r)
          else None)"

section \<open>The file system\<close>

text \<open>
  The part of the file system the sources touch: the files with their contents and the
  directories that exist. \<open>existsSync\<close> answers for both. Failures of the platform other
  than a missing file (permissions, a full disk) are outside the model.
\<close>

record fs_state =
  files :: "string \<Rightarrow> string option"
  dirs :: "string set"

definition existsSync :: "fs_state \<Rightarrow> string \<Rightarrow> bool" where
  "existsSync fs p = (files fs p \<noteq> None \<or> p \<in> dirs fs)"

definition mkdirSync :: "fs_state \<Rightarrow> string \<Rightarrow> fs_state" where
  "mkdirSync fs p = fs\<lparr>dirs := insert p (dirs fs)\<rparr>"

definition writeFileSync :: "fs_state \<Rightarrow> string \<Rightarrow> string \<Rightarrow> fs_state" where
  "writeFileSync fs p data = fs\<lparr>files := (files fs)(p \<mapsto> data)\<rparr>"

definition readFileSync :: "fs_state \<Rightarrow> string \<Rightarrow> error + string" where
  "readFileSync fs p = (case files fs p of None \<Rightarrow> Inl FsError | Some data \<Rightarrow> Inr data)"

text \<open>\<open>path.join\<close> and \<open>path.dirname\<close> on clean POSIX paths.\<close>

definition path_join :: "string list \<Rightarrow> string" where
  "path_join parts = join ''/'' parts"

definition dirname :: "string \<Rightarrow> string" where
  "dirname p =
     (if CHR ''/'' \<notin> set p then ''.''
      else (let d = rev (drop 1 (dropWhile (\<lambda>c. c \<noteq> CHR ''/'') (rev p)))
            in if d = [] then ''/'' else d))"

section \<open>\<open>AuthManager\<close>: the persisted session record\<close>

record auth_manager =
  authPath :: string

definition new_AuthManager :: "string \<Rightarrow> auth_manager" where
  "new_AuthManager homedir = \<lparr> authPath = path_join [homedir, ''.notebooklm-mcp'', ''auth.json''] \<rparr>"

text \<open>The record \<open>{ cookies, updatedAt }\<close>, as an object with its properties in order.\<close>

definition authData :: "string \<Rightarrow> utc_time \<Rightarrow> (string \<times> string) list" where
  "authData cookieString now = [(''cookies'', cookieString), (''updatedAt'', toISOString now)]"

text \<open>
  The end of \<open>runAuthentication\<close>: build the record, create the directory when it is
  missing, write the file.
\<close>

definition save_session :: "auth_manager \<Rightarrow> utc_time \<Rightarrow> string \<Rightarrow> fs_state \<Rightarrow> fs_state" where
  "save_session mgr now cookieString fs =
     (let fs1 = (if \<not> existsSync fs (dirname (authPath mgr))
                 then mkdirSync fs (dirname (authPath mgr)) else fs)
      in writeFileSync fs1 (authPath mgr) (stringify (authData cookieString now)))"

text \<open>A property read of a parsed object: \<open>Undefined\<close> when the object has no such member.\<close>

datatype js_value = Undefined | JsString string

definition get_property :: "(string \<times> string) list \<Rightarrow> string \<Rightarrow> js_value" where
  "get_property obj k = (case map_of obj k of None \<Rightarrow> Undefined | Some v \<Rightarrow> JsString v)"

text \<open>The expression \<open>JSON.parse(fs.readFileSync(path, 'utf-8'))\<close>.\<close>

definition read_json :: "fs_state \<Rightarrow> string \<Rightarrow> error + (string \<times> string) list" where
  "read_json fs p =
     (case readFileSync fs p of
        Inl e \<Rightarrow> Inl e
      | Inr text \<Rightarrow> (case JSON_parse text of None \<Rightarrow> Inl JsonSyntaxError | Some data \<Rightarrow> Inr data))"

definition getSavedCookies :: "auth_manager \<Rightarrow> fs_state \<Rightarrow> error + js_value" where
  "getSavedCookies mgr fs =
     (if \<not> existsSync fs (authPath mgr) then Inl NotAuthenticated
      else (case read_json fs (authPath mgr) of
              Inl e \<Rightarrow> Inl e
            | Inr data \<Rightarrow> Inr (get_property data ''cookies'')))"

section \<open>The interactive login of \<open>runAuthentication\<close>\<close>

text \<open>
  What the browser does during one run, in milliseconds of logical time from the start of
  the wait. Each of the three Playwright waits carries the time at which its condition
  first holds, if it ever does; \<open>closed_at\<close> is the time at which the user closes the
  browser. \<open>jar_at\<close> is the full cookie jar (\<open>context.cookies()\<close>, all domains) and
  \<open>page_url_at\<close> the page's URL. \<open>affects url c\<close> is the browser's rule for
  \<open>context.cookies(url)\<close>: whether cookie \<open>c\<close> is sent to \<open>url\<close>. Playwright's rule is
  \<open>cookie_applies\<close> below.
\<close>

record browser =
  url_signal :: "nat option"
  main_signal :: "nat option"
  account_signal :: "nat option"
  closed_at :: "nat option"
  jar_at :: "nat \<Rightarrow> cookie list"
  page_url_at :: "nat \<Rightarrow> string"
  affects :: "string \<Rightarrow> cookie \<Rightarrow> bool"

definition target_url :: string where
  "target_url = ''https://notebooklm.google.com''"

definition target_host :: string where
  "target_host = ''notebooklm.google.com''"

text \<open>
  The rule by which Playwright's \<open>context.cookies(url)\<close> keeps a cookie of the jar
  (\<open>filterCookies\<close>, for one URL). The URL is read as \<open>new URL\<close> reads one of the form
  \<open>scheme://host/path\<close>, with \<open>/\<close> for an empty path. The cookie's domain gets a leading dot
  when it has none and must end the dotted host name, so a cookie of the host or of one of
  its parent domains is kept; the cookie's path must begin the URL's path; and a secure
  cookie is dropped for a URL that is neither \<open>https\<close> nor local.
\<close>

record location =
  protocol :: string
  hostname :: string
  pathname :: string

definition parse_url :: "string \<Rightarrow> location option" where
  "parse_url s =
     (let i = indexOf s ''://''
      in if i < 0 then None
         else (let rest = drop (nat i + 3) s;
                   host = takeWhile (\<lambda>c. c \<noteq> CHR ''/'') rest;
                   path = dropWhile (\<lambda>c. c \<noteq> CHR ''/'') rest
               in Some \<lparr> protocol = take (nat i + 1) s, hostname = host,
                         pathname = (if path = [] then ''/'' else path) \<rparr>))"

definition ends_with :: "string \<Rightarrow> string \<Rightarrow> bool" where
  "ends_with s end = prefix (rev end) (rev s)"

definition domain_matches :: "string \<Rightarrow> string \<Rightarrow> bool" where
  "domain_matches cookie_domain host =
     ends_with (''.'' @ host)
       (if prefix ''.'' cookie_domain then cookie_domain else ''.'' @ cookie_domain)"

definition isLocalHostname :: "string \<Rightarrow> bool" where
  "isLocalHostname host = (host = ''localhost'' \<or> ends_with host ''.localhost'')"

definition cookie_applies :: "string \<Rightarrow> cookie \<Rightarrow> bool" where
  "cookie_applies url c =
     (case parse_url url of
        None \<Rightarrow> False
      | Some u \<Rightarrow>
          domain_matches (c_domain c) (hostname u) \<and>
          prefix (c_path c) (pathname u) \<and>
          \<not> (protocol u \<noteq> ''https:'' \<and> \<not> isLocalHostname (hostname u) \<and> c_secure c))"

definition login_timeout :: nat where
  "login_timeout = 300000"

definition poll_interval :: nat where
  "poll_interval = 2000"

definition alive :: "browser \<Rightarrow> nat \<Rightarrow> bool" where
  "alive b t = (case closed_at b of None \<Rightarrow> True | Some tc \<Rightarrow> t < tc)"

datatype settled = Resolved nat | Rejected nat

fun settle_time :: "settled \<Rightarrow> nat" where
  "settle_time (Resolved t) = t"
| "settle_time (Rejected t) = t"

text \<open>
  A Playwright wait with a timeout: it resolves when its condition holds before the
  deadline, and rejects at the deadline, which is the timeout or the closing of the
  browser, whichever comes first.
\<close>

definition deadline :: "browser \<Rightarrow> nat \<Rightarrow> nat" where
  "deadline b timeout = (case closed_at b of None \<Rightarrow> timeout | Some tc \<Rightarrow> min tc timeout)"

definition waiter :: "browser \<Rightarrow> nat option \<Rightarrow> nat \<Rightarrow> settled" where
  "waiter b signal timeout =
     (case signal of
        None \<Rightarrow> Rejected (deadline b timeout)
      | Some t \<Rightarrow> if t < deadline b timeout then Resolved t else Rejected (deadline b timeout))"

definition has_sid :: "cookie list \<Rightarrow> bool" where
  "has_sid cookies = list_ex (\<lambda>c. c_name c = ''__Secure-3PSID'' \<or> c_name c = ''SID'') cookies"

definition sid_on_target :: "browser \<Rightarrow> nat \<Rightarrow> bool" where
  "sid_on_target b t =
     (has_sid (jar_at b t) \<and> str_includes (page_url_at b t) ''notebooklm.google.com'')"

text \<open>
  A login-completion signal at time \<open>t\<close>: the condition of one of the three waits first holds
  then, or \<open>t\<close> is a tick of the cookie poll at which a session cookie is seen on the target
  host. A notion of the specification side, used to state what the race returns.
\<close>

definition signal_at :: "browser \<Rightarrow> nat \<Rightarrow> bool" where
  "signal_at b t =
     (url_signal b = Some t \<or> main_signal b = Some t \<or> account_signal b = Some t \<or>
      (poll_interval dvd t \<and> sid_on_target b t))"

text \<open>
  The fourth racer, \<open>checkLoop\<close>: every two seconds, unless \<open>isDone\<close> is set, it reads the
  full jar and resolves when a session cookie is there and the page is on the target host.
  \<open>stop\<close> is the time at which another racer sets \<open>isDone\<close>. A read on a closed browser
  throws, and the \<open>catch\<close> ends the loop without resolving.
\<close>

function checkLoop :: "browser \<Rightarrow> nat \<Rightarrow> nat \<Rightarrow> nat option" where
  "checkLoop b stop t =
     (if stop \<le> t then None
      else if \<not> alive b t then None
      else if sid_on_target b t then Some t
      else checkLoop b stop (t + poll_interval))"
  by pat_completeness auto
termination
  by (relation "measure (\<lambda>(b, stop, t). stop - t)") (auto simp: poll_interval_def)

declare checkLoop.simps [simp del]

definition earliest :: "settled \<Rightarrow> settled \<Rightarrow> settled" where
  "earliest x y = (if settle_time y < settle_time x then y else x)"

text \<open>\<open>Promise.race\<close> over the four racers: the first one to settle decides.\<close>

definition race_login :: "browser \<Rightarrow> settled" where
  "race_login b =
     (let w1 = waiter b (url_signal b) login_timeout;
          w2 = waiter b (main_signal b) login_timeout;
          w3 = waiter b (account_signal b) login_timeout;
          first = earliest (earliest w1 w2) w3
      in case checkLoop b (settle_time first) 0 of
           Some t \<Rightarrow> Resolved t
         | None \<Rightarrow> first)"

text \<open>The first of the three Playwright waits to settle, as \<open>race_login\<close> computes it.\<close>

definition first_of :: "browser \<Rightarrow> settled" where
  "first_of b = earliest (earliest (waiter b (url_signal b) login_timeout)
      (waiter b (main_signal b) login_timeout)) (waiter b (account_signal b) login_timeout)"

text \<open>
  The \<open>try\<close> block: the race, then the check that a session cookie is there, with three
  more seconds of waiting when it is not. Every rejection inside the block is caught and
  rethrown as the one error. The result is the time at which the extraction starts,
  together with the status messages of the block.
\<close>

definition wait_for_login :: "browser \<Rightarrow> (error + nat) \<times> string list" where
  "wait_for_login b =
     (case race_login b of
        Rejected t \<Rightarrow> (Inl AuthenticationTimeout, [])
      | Resolved t \<Rightarrow>
          if has_sid (jar_at b t) then (Inr t, [])
          else if alive b (t + 3000) then (Inr (t + 3000), [''Verifying session session...''])
          else (Inl AuthenticationTimeout, [''Verifying session session...'']))"

definition REQUIRED_COOKIES :: "string list" where
  "REQUIRED_COOKIES = [''SID'', ''HSID'', ''SSID'', ''APISID'', ''SAPISID'']"

definition missingCookies :: "(string \<times> string) list \<Rightarrow> string list" where
  "missingCookies cookieMap = filter (\<lambda>name. \<not> map_has cookieMap name) REQUIRED_COOKIES"

definition allCookies_at :: "browser \<Rightarrow> nat \<Rightarrow> cookie list" where
  "allCookies_at b t = filter (affects b target_url) (jar_at b t)"

text \<open>
  The outcome of a run: the result, the file system behind it, the messages handed to the
  status callback and the lines written to the console.
\<close>

record auth_run =
  outcome :: "error + unit"
  fs_after :: fs_state
  statuses :: "string list"
  console :: "string list"

definition runAuthentication :: "auth_manager \<Rightarrow> browser \<Rightarrow> utc_time \<Rightarrow> fs_state \<Rightarrow> auth_run" where
  "runAuthentication mgr b now fs =
     (let st0 = [''Launching Chromium...'', ''Loading NotebookLM...'', ''Waiting for Google Login...''];
          st1 = st0 @ snd (wait_for_login b)
      in case fst (wait_for_login b) of
           Inl e \<Rightarrow> \<lparr> outcome = Inl e, fs_after = fs, statuses = st1, console = [] \<rparr>
         | Inr te \<Rightarrow>
             (let allCookies = allCookies_at b te;
                  cookieMap = cookieMap_of allCookies;
                  cookieString = cookieString_of cookieMap;
                  missing = missingCookies cookieMap;
                  log1 = (if length missing > 0
                          then [''Warning: Missing required cookies: '' @ join '', '' missing]
                          else []);
                  log2 = [''Extracted '' @ show_nat (length cookieMap) @
                          '' unique cookies for notebooklm.google.com''];
                  fs' = save_session mgr now cookieString fs;
                  log3 = [''Authentication successful! Cookies saved to '' @ authPath mgr]
              in \<lparr> outcome = Inr (), fs_after = fs',
                   statuses = st1 @ [''Extracting secure session cookies...''],
                   console = log1 @ log2 @ log3 \<rparr>))"

section \<open>The script \<open>fix-cookies.ts\<close>\<close>

record fix_run =
  fix_outcome :: "error + unit"
  fix_fs :: fs_state
  fix_console :: "string list"

definition fix_cookies_script :: "string \<Rightarrow> utc_time \<Rightarrow> fs_state \<Rightarrow> fix_run" where
  "fix_cookies_script path now fs =
     (case read_json fs path of
        Inl e \<Rightarrow> \<lparr> fix_outcome = Inl e, fix_fs = fs, fix_console = [] \<rparr>
      | Inr data \<Rightarrow>
          (case get_property data ''cookies'' of
             Undefined \<Rightarrow> \<lparr> fix_outcome = Inl TypeError, fix_fs = fs, fix_console = [] \<rparr>
           | JsString cookies \<Rightarrow>
               (let r = fixCookies cookies
                in \<lparr> fix_outcome = Inr (),
                     fix_fs = writeFileSync fs path (stringify (authData (deduped r) now)),
                     fix_console =
                       [''Before: '' @ show_nat (before_count r) @ '' cookies'',
                        ''After: '' @ show_nat (after_count r) @ '' cookies'',
                        ''Saved deduplicated cookies to auth.json''] \<rparr>)))"

section \<open>Session bootstrap\<close>

text \<open>
  The answer to the GET of the entry page: the URL the request ended at after its
  redirects, and the body.
\<close>

record http_response =
  responseUrl :: string
  html :: string

text \<open>
  The checks of \<open>examples/test-auth.ts\<close> on that answer: a final URL on the accounts host
  means the cookies were rejected; otherwise the page is searched for the two markers.
\<close>

datatype diagnosis = Redirected | Working | NoCsrfToken

definition redirected_to_login :: "http_response \<Rightarrow> bool" where
  "redirected_to_login r = str_includes (responseUrl r) ''accounts.google.com''"

definition diagnose :: "http_response \<Rightarrow> diagnosis" where
  "diagnose r =
     (if redirected_to_login r then Redirected
      else if str_includes (html r) ''SNlM0e'' then Working
      else NoCsrfToken)"

record session_context =
  csrfToken :: "string option"
  sessionId :: "string option"
  initialized :: bool

definition fresh_context :: session_context where
  "fresh_context = \<lparr> csrfToken = None, sessionId = None, initialized = False \<rparr>"

text \<open>
  Modelled from the spec: the bootstrap of the client (\<open>NotebookLMClient.init\<close> in
  \<open>src/client.ts\<close>), which is not among the sources. Following section 4.3: a response that
  resolved to the identity provider fails with \<open>SessionExpired\<close>; otherwise the body is
  scanned for the anti-forgery token and the session identifier; a missing token fails with
  \<open>SessionExpired\<close>, a missing identifier is tolerated; on success both fields are written in
  one step and \<open>initialized\<close> is set. A failure leaves the context as it was. The two scans
  are parameters, since the specification does not say how a marker's value is read;
  the test for the identity provider is the one of \<open>examples/test-auth.ts\<close>.
\<close>

definition bootstrap ::
  "(string \<Rightarrow> string option) \<Rightarrow> (string \<Rightarrow> string option) \<Rightarrow>
   session_context \<Rightarrow> http_response \<Rightarrow> (error + string \<times> string option) \<times> session_context" where
  "bootstrap scan_csrf scan_sid ctx r =
     (if redirected_to_login r then (Inl SessionExpired, ctx)
      else (case scan_csrf (html r) of
              None \<Rightarrow> (Inl SessionExpired, ctx)
            | Some token \<Rightarrow>
                (Inr (token, scan_sid (html r)),
                 ctx\<lparr> csrfToken := Some token, sessionId := scan_sid (html r), initialized := True \<rparr>)))"

text \<open>
  Modelled from the spec: one way to read a marker, for concrete runs. The value of marker
  \<open>key\<close> is the text between the first occurrence of \<open>key\<close> followed by \<open>":"\<close> and the next
  quotation mark; an absent marker or an empty value gives nothing. The marker names
  \<open>SNlM0e\<close> and \<open>FdrFJe\<close> are those of \<open>examples/test-auth.ts\<close>.
\<close>

definition scan_marker :: "string \<Rightarrow> string \<Rightarrow> string option" where
  "scan_marker key body =
     (let pat = key @ [dquote, CHR '':'', dquote];
          i = indexOf body pat
      in if i < 0 then None
         else (let v = takeWhile (\<lambda>c. c \<noteq> dquote) (drop (nat i + length pat) body)
               in if v = [] then None else Some v))"

definition scan_csrf_marker :: "string \<Rightarrow> string option" where
  "scan_csrf_marker body = scan_marker ''SNlM0e'' body"

definition scan_sid_marker :: "string \<Rightarrow> string option" where
  "scan_sid_marker body = scan_marker ''FdrFJe'' body"

section \<open>Example runs\<close>

text \<open>
  Concrete inputs on which the theorems below are instantiated. In \<open>silent_browser\<close> nothing
  ever happens. In \<open>login_browser\<close> the application's main region appears after five
  seconds, when the page has reached the target host; the jar then holds a \<open>SID\<close> of
  another site next to the cookies sent to the target, one name twice, and none of the
  other required names. In \<open>poll_browser\<close> none of the three waits ever fires, and the
  cookie poll sees the session cookie on the target host at its tick after four seconds.
  In \<open>parent_domain_browser\<close> the only cookie of the jar belongs to the parent domain of the
  target host. The browsers follow Playwright's rule \<open>cookie_applies\<close>.
\<close>

definition example_clock :: utc_time where
  "example_clock =
     \<lparr> t_year = 2026, t_month = 1, t_day = 9, t_hours = 3, t_minutes = 4, t_seconds = 5,
       t_millis = 67 \<rparr>"

definition empty_fs :: fs_state where
  "empty_fs = \<lparr> files = (\<lambda>p. None), dirs = {} \<rparr>"

definition silent_browser :: browser where
  "silent_browser =
     \<lparr> url_signal = None, main_signal = None, account_signal = None, closed_at = None,
       jar_at = (\<lambda>t. []),
       page_url_at = (\<lambda>t. ''https://accounts.google.com/signin''),
       affects = cookie_applies \<rparr>"

definition youtube_sid :: cookie where
  "youtube_sid = \<lparr> c_name = ''SID'', c_value = ''y'', c_domain = ''.youtube.com'', c_path = ''/'',
        c_secure = True \<rparr>"

definition login_jar :: "cookie list" where
  "login_jar =
     [youtube_sid,
      \<lparr> c_name = ''SID'', c_value = ''a'', c_domain = ''.google.com'', c_path = ''/'',
        c_secure = True \<rparr>,
      \<lparr> c_name = ''NID'', c_value = ''1'', c_domain = ''notebooklm.google.com'', c_path = ''/'',
        c_secure = True \<rparr>,
      \<lparr> c_name = ''SID'', c_value = ''b'', c_domain = ''notebooklm.google.com'', c_path = ''/'',
        c_secure = True \<rparr>]"

definition login_browser :: browser where
  "login_browser =
     \<lparr> url_signal = None, main_signal = Some 5000, account_signal = None, closed_at = None,
       jar_at = (\<lambda>t. login_jar),
       page_url_at = (\<lambda>t. if t < 5000 then ''https://accounts.google.com/signin''
                          else ''https://notebooklm.google.com/''),
       affects = cookie_applies \<rparr>"

definition poll_browser :: browser where
  "poll_browser =
     \<lparr> url_signal = None, main_signal = None, account_signal = None, closed_at = None,
       jar_at = (\<lambda>t. login_jar),
       page_url_at = (\<lambda>t. if t < 3000 then ''https://accounts.google.com/signin''
                          else ''https://notebooklm.google.com/''),
       affects = cookie_applies \<rparr>"

definition google_sid :: cookie where
  "google_sid =
     \<lparr> c_name = ''SID'', c_value = ''a'', c_domain = ''.google.com'', c_path = ''/'',
       c_secure = True \<rparr>"

definition parent_domain_browser :: browser where
  "parent_domain_browser =
     \<lparr> url_signal = None, main_signal = Some 5000, account_signal = None, closed_at = None,
       jar_at = (\<lambda>t. [google_sid]),
       page_url_at = (\<lambda>t. if t < 5000 then ''https://accounts.google.com/signin''
                          else ''https://notebooklm.google.com/''),
       affects = cookie_applies \<rparr>"

text \<open>
  Two answers of the entry page. \<open>redirected_response\<close> ended on the accounts host with a
  body that carries both markers; \<open>token_only_response\<close> is a page of the target that carries
  the anti-forgery token and no session identifier; \<open>entry_response\<close> carries both.
\<close>

definition marker_text :: "string \<Rightarrow> string \<Rightarrow> string" where
  "marker_text key v = [dquote] @ key @ [dquote, CHR '':'', dquote] @ v @ [dquote]"

definition redirected_response :: http_response where
  "redirected_response =
     \<lparr> responseUrl = ''https://accounts.google.com/v3/signin/identifier'',
       html = ''{'' @ marker_text ''SNlM0e'' ''csrf123'' @ '','' @ marker_text ''FdrFJe'' ''sid456'' @ ''}'' \<rparr>"

definition token_only_response :: http_response where
  "token_only_response =
     \<lparr> responseUrl = ''https://notebooklm.google.com/'',
       html = ''{'' @ marker_text ''SNlM0e'' ''csrf123'' @ ''}'' \<rparr>"

definition entry_response :: http_response where
  "entry_response =
     \<lparr> responseUrl = ''https://notebooklm.google.com/'',
       html = ''{'' @ marker_text ''SNlM0e'' ''csrf123'' @ '','' @ marker_text ''FdrFJe'' ''sid456'' @ ''}'' \<rparr>"

section \<open>Splitting and joining\<close>

lemma split_str_nonempty: "split_str a as s \<noteq> []"
  by (induction a as s rule: split_str.induct) (auto split: list.splits)

lemma join_Cons_Cons: "join sep ((c # p) # ps) = c # join sep (p # ps)"
  by (cases ps) simp_all

lemma join_Nil_Cons: "ps \<noteq> [] \<Longrightarrow> join sep ([] # ps) = sep @ join sep ps"
  by (cases ps) simp_all

lemma join_Cons: "ps \<noteq> [] \<Longrightarrow> join sep (p # ps) = p @ sep @ join sep ps"
  by (cases ps) simp_all

lemma join_split_str: "join (a # as) (split_str a as s) = s"
proof (induction a as s rule: split_str.induct)
  case (1 a as)
  show ?case by simp
next
  case (2 a as c cs)
  show ?case
  proof (cases "c = a \<and> prefix as cs")
    case True
    then obtain r where cs: "cs = as @ r" by (auto simp: prefix_def)
    have "join (a # as) (split_str a as (drop (length as) cs)) = drop (length as) cs"
      using "2.IH"(1) True by simp
    with True cs show ?thesis
      by (simp add: join_Nil_Cons split_str_nonempty)
  next
    case False
    obtain p ps where sp: "split_str a as cs = p # ps"
      using split_str_nonempty [of a as cs] by (cases "split_str a as cs") auto
    have "join (a # as) (p # ps) = cs"
      using "2.IH"(2) False sp by simp
    with False sp show ?thesis
      by (auto simp: join_Cons_Cons)
  qed
qed


lemma split_str_no_sep: "\<not> has_sep a as p \<Longrightarrow> split_str a as p = [p]"
proof (induction p)
  case Nil
  show ?case by simp
next
  case (Cons c p)
  then have "(c = a \<and> prefix as p) = False" and "split_str a as p = [p]" by auto
  then show ?case by simp
qed

lemma split_str_piece:
  "\<not> has_sep CHR '';'' '' '' p \<Longrightarrow>
   split_str CHR '';'' '' '' (p @ ''; '' @ rest) = p # split_str CHR '';'' '' '' rest"
proof (induction p)
  case Nil
  show ?case by simp
next
  case (Cons c p)
  from Cons.prems have np: "\<not> has_sep CHR '';'' '' '' p"
    and nc: "\<not> (c = CHR '';'' \<and> prefix '' '' p)" by auto
  have "(c = CHR '';'' \<and> prefix '' '' (p @ ''; '' @ rest)) = False"
    using nc by (cases p) auto
  with Cons.IH [OF np] show ?case by simp
qed

lemma split_join_pieces:
  "ps \<noteq> [] \<Longrightarrow> \<forall>p \<in> set ps. \<not> has_sep CHR '';'' '' '' p \<Longrightarrow>
   split_str CHR '';'' '' '' (join ''; '' ps) = ps"
proof (induction ps)
  case Nil
  then show ?case by simp
next
  case (Cons p ps)
  show ?case
  proof (cases ps)
    case Nil
    with Cons.prems show ?thesis by (simp add: split_str_no_sep)
  next
    case (Cons q qs)
    then have ne: "ps \<noteq> []" by simp
    have "split_str CHR '';'' '' '' (join ''; '' ps) = ps"
      using Cons.IH ne Cons.prems by simp
    moreover have "\<not> has_sep CHR '';'' '' '' p" using Cons.prems by simp
    moreover have "join ''; '' (p # ps) = p @ ''; '' @ join ''; '' ps"
      using ne by (rule join_Cons)
    ultimately show ?thesis
      using split_str_piece [of p "join ''; '' ps"] by simp
  qed
qed

section \<open>Insertion-ordered maps and the cookie map\<close>

lemma map_of_map_set: "map_of (map_set m k v) = (map_of m)(k \<mapsto> v)"
  by (induction m) (auto simp: fun_eq_iff)

lemma keys_map_set: "set (map fst (map_set m k v)) = insert k (set (map fst m))"
proof (induction m)
  case Nil
  show ?case by simp
next
  case (Cons e m)
  obtain k' v' where e: "e = (k', v')" by (cases e)
  show ?case
  proof (cases "k' = k")
    case True
    with e show ?thesis by simp
  next
    case False
    with e Cons.IH show ?thesis by (simp add: insert_commute)
  qed
qed

lemma distinct_map_set: "distinct (map fst m) \<Longrightarrow> distinct (map fst (map_set m k v))"
proof (induction m)
  case Nil
  then show ?case by simp
next
  case (Cons e m)
  obtain k' v' where e: "e = (k', v')" by (cases e)
  show ?case
  proof (cases "k' = k")
    case True
    with Cons.prems e show ?thesis by simp
  next
    case False
    have "k' \<notin> set (map fst (map_set m k v))"
      using Cons.prems e False by (simp add: keys_map_set del: set_map)
    with Cons e False show ?thesis by simp
  qed
qed

lemma map_has_iff: "map_has m k \<longleftrightarrow> k \<in> set (map fst m)"
  by (induction m) auto

lemma foldl_set_distinct:
  "distinct (map fst m) \<Longrightarrow>
   distinct (map fst (foldl (\<lambda>m c. map_set m (c_name c) (c_value c)) m cs))"
  by (induction cs arbitrary: m) (simp_all add: distinct_map_set)

lemma foldl_set_keys:
  "set (map fst (foldl (\<lambda>m c. map_set m (c_name c) (c_value c)) m cs)) =
     set (map fst m) \<union> set (map c_name cs)"
  by (induction cs arbitrary: m) (auto simp: keys_map_set simp del: set_map)

lemma last_value_Cons:
  "last_value n (c # cs) =
     (case last_value n cs of Some v \<Rightarrow> Some v
      | None \<Rightarrow> if c_name c = n then Some (c_value c) else None)"
  by (auto simp: last_value_def split: list.splits)

lemma foldl_set_lookup:
  "map_of (foldl (\<lambda>m c. map_set m (c_name c) (c_value c)) m cs) n =
     (case last_value n cs of Some v \<Rightarrow> Some v | None \<Rightarrow> map_of m n)"
proof (induction cs arbitrary: m)
  case Nil
  show ?case by (simp add: last_value_def)
next
  case (Cons c cs)
  show ?case
    by (simp add: Cons.IH last_value_Cons map_of_map_set split: option.splits)
qed

text \<open>
  Claim C1. Whatever the sequence of cookies read from the browser, repeated names
  included, the cookie map built from it has exactly one entry for each name that occurs,
  and the entry of a name carries the value of the last cookie of that name in the order
  of the input.
\<close>

theorem cookieMap_dedup_last_wins:
  "distinct (map fst (cookieMap_of cs)) \<and>
   set (map fst (cookieMap_of cs)) = set (map c_name cs) \<and>
   map_of (cookieMap_of cs) n = last_value n cs"
proof -
  have "distinct (map fst (cookieMap_of cs))"
    unfolding cookieMap_of_def by (rule foldl_set_distinct) simp
  moreover have "set (map fst (cookieMap_of cs)) = set (map c_name cs)"
    unfolding cookieMap_of_def using foldl_set_keys [of "[]" cs] by simp
  moreover have "map_of (cookieMap_of cs) n = last_value n cs"
    unfolding cookieMap_of_def using foldl_set_lookup [of "[]" cs n]
    by (simp split: option.splits)
  ultimately show ?thesis by simp
qed

section \<open>The dedup utility\<close>

text \<open>
  Claim C5. On the cookie string \<open>SID=1; SID=2; HSID=x\<close> the utility produces
  \<open>SID=1; HSID=x\<close>, the first occurrence of each name winning, and reports 3 pairs
  before and 2 after.
\<close>

theorem fixCookies_scenario_B:
  "fixCookies ''SID=1; SID=2; HSID=x'' =
     \<lparr> deduped = ''SID=1; HSID=x'', before_count = 3, after_count = 2 \<rparr>"
  by (simp add: fixCookies_def seen_of_def seen_step_def pair_name_def pair_value_def
        substring_def substring_from_def format_entry_def)


lemma indexOf_absent: "c \<notin> set p \<Longrightarrow> indexOf p [c] = - 1"
  by (induction p) (auto simp: Let_def)

lemma indexOf_first: "c \<notin> set n \<Longrightarrow> indexOf (n @ c # v) [c] = int (length n)"
  by (induction n) (auto simp: Let_def)

lemma pair_name_format: "CHR ''='' \<notin> set n \<Longrightarrow> pair_name (n @ CHR ''='' # v) = n"
  using indexOf_first [of "CHR ''=''" n v]
  by (simp add: pair_name_def substring_def Let_def)

lemma pair_value_format: "CHR ''='' \<notin> set n \<Longrightarrow> pair_value (n @ CHR ''='' # v) = v"
  using indexOf_first [of "CHR ''=''" n v]
  by (simp add: pair_value_def substring_from_def substring_def Let_def nat_add_distrib)

lemma pair_name_absent: "CHR ''='' \<notin> set p \<Longrightarrow> pair_name p = []"
  using indexOf_absent [of "CHR ''=''" p]
  by (simp add: pair_name_def substring_def Let_def)

lemma pair_value_absent: "CHR ''='' \<notin> set p \<Longrightarrow> pair_value p = p"
  using indexOf_absent [of "CHR ''=''" p]
  by (simp add: pair_value_def substring_from_def substring_def Let_def)

lemma pair_decompose:
  "CHR ''='' \<in> set p \<Longrightarrow> \<exists>n v. p = n @ CHR ''='' # v \<and> CHR ''='' \<notin> set n"
  using split_list_first [of "CHR ''=''" p] by auto

lemma name_has_no_eq: "CHR ''='' \<notin> set (pair_name p)"
proof (cases "CHR ''='' \<in> set p")
  case True
  then obtain n v where "p = n @ CHR ''='' # v" "CHR ''='' \<notin> set n"
    using pair_decompose by blast
  then show ?thesis by (simp add: pair_name_format)
next
  case False
  then show ?thesis by (simp add: pair_name_absent)
qed

lemma format_entry_pair:
  "format_entry (pair_name p, pair_value p) = (if CHR ''='' \<in> set p then p else CHR ''='' # p)"
proof (cases "CHR ''='' \<in> set p")
  case True
  then obtain n v where p: "p = n @ CHR ''='' # v" and n: "CHR ''='' \<notin> set n"
    using pair_decompose by blast
  show ?thesis
    using n unfolding p by (simp add: format_entry_def pair_name_format pair_value_format)
next
  case False
  then show ?thesis by (simp add: format_entry_def pair_name_absent pair_value_absent)
qed

lemma format_entry_parse:
  "CHR ''='' \<notin> set (fst e) \<Longrightarrow>
   pair_name (format_entry e) = fst e \<and> pair_value (format_entry e) = snd e"
  by (simp add: format_entry_def pair_name_format pair_value_format)

lemma has_sep_format:
  "\<not> has_sep CHR '';'' '' '' p \<Longrightarrow>
   \<not> has_sep CHR '';'' '' '' (format_entry (pair_name p, pair_value p))"
  by (simp add: format_entry_pair)

lemma split_first_prefix: "prefix (hd (split_str a as s)) s"
proof -
  obtain p ps where sp: "split_str a as s = p # ps"
    using split_str_nonempty [of a as s] by (cases "split_str a as s") auto
  have "join (a # as) (p # ps) = s" using join_split_str [of a as s] sp by simp
  then have "prefix p s" by (cases ps) auto
  with sp show ?thesis by simp
qed

lemma split_pieces_no_sep: "\<forall>p \<in> set (split_str a as s). \<not> has_sep a as p"
proof (induction a as s rule: split_str.induct)
  case (1 a as)
  show ?case by simp
next
  case (2 a as c cs)
  show ?case
  proof (cases "c = a \<and> prefix as cs")
    case True
    with "2.IH"(1) show ?thesis by simp
  next
    case False
    obtain p ps where sp: "split_str a as cs = p # ps"
      using split_str_nonempty [of a as cs] by (cases "split_str a as cs") auto
    have ih: "\<forall>q \<in> set (p # ps). \<not> has_sep a as q"
      using "2.IH"(2) False sp by simp
    have "prefix p cs" using split_first_prefix [of a as cs] sp by simp
    then have "prefix as p \<Longrightarrow> prefix as cs" by (rule prefix_order.trans [rotated])
    with False have "\<not> (c = a \<and> prefix as p)" by blast
    with ih have "\<forall>q \<in> set ((c # p) # ps). \<not> has_sep a as q" by simp
    with False sp show ?thesis by auto
  qed
qed


lemma map_set_fresh: "\<not> map_has m k \<Longrightarrow> map_set m k v = m @ [(k, v)]"
  by (induction m) auto

lemma seen_step_eq:
  "seen_step seen p =
     (if pair_name p \<in> set (map fst seen) then seen else seen @ [(pair_name p, pair_value p)])"
  by (simp add: seen_step_def map_has_iff map_set_fresh del: set_map)

lemma seen_fold_distinct:
  "distinct (map fst acc) \<Longrightarrow> distinct (map fst (foldl seen_step acc ps))"
  by (induction ps arbitrary: acc) (simp_all add: seen_step_eq)

lemma seen_fold_invariant:
  assumes "\<forall>e \<in> set acc. P e" and "\<forall>p \<in> set ps. P (pair_name p, pair_value p)"
  shows "\<forall>e \<in> set (foldl seen_step acc ps). P e"
  using assms
proof (induction ps arbitrary: acc)
  case Nil
  then show ?case by simp
next
  case (Cons p ps)
  have "\<forall>e \<in> set (seen_step acc p). P e"
    using Cons.prems by (simp add: seen_step_eq)
  then have "\<forall>e \<in> set (foldl seen_step (seen_step acc p) ps). P e"
    using Cons.prems by (intro Cons.IH) simp_all
  then show ?case by simp
qed

lemma seen_fold_names_clean:
  "\<forall>e \<in> set (foldl seen_step [] ps). CHR ''='' \<notin> set (fst e)"
  by (rule seen_fold_invariant) (simp_all add: name_has_no_eq)

lemma seen_fold_no_sep:
  "\<forall>p \<in> set ps. \<not> has_sep CHR '';'' '' '' p \<Longrightarrow>
   \<forall>e \<in> set (foldl seen_step [] ps). \<not> has_sep CHR '';'' '' '' (format_entry e)"
  by (rule seen_fold_invariant) (simp_all add: has_sep_format)

lemma seen_fold_length: "length acc \<le> length (foldl seen_step acc ps)"
proof (induction ps arbitrary: acc)
  case Nil
  show ?case by simp
next
  case (Cons p ps)
  have "length acc \<le> length (seen_step acc p)" by (simp add: seen_step_eq)
  also have "\<dots> \<le> length (foldl seen_step (seen_step acc p) ps)" by (rule Cons.IH)
  finally show ?case by simp
qed

lemma seen_of_nonempty: "ps \<noteq> [] \<Longrightarrow> seen_of ps \<noteq> []"
proof (cases ps)
  case Nil
  then show "ps \<noteq> [] \<Longrightarrow> seen_of ps \<noteq> []" by simp
next
  case (Cons p qs)
  have "length (seen_step [] p) \<le> length (foldl seen_step (seen_step [] p) qs)"
    by (rule seen_fold_length)
  then show "seen_of ps \<noteq> []"
    using Cons by (auto simp: seen_of_def seen_step_eq)
qed

lemma seen_fold_formatted:
  "distinct (map fst (acc @ es)) \<Longrightarrow> \<forall>e \<in> set es. CHR ''='' \<notin> set (fst e) \<Longrightarrow>
   foldl seen_step acc (map format_entry es) = acc @ es"
proof (induction es arbitrary: acc)
  case Nil
  show ?case by simp
next
  case (Cons e es)
  from Cons.prems have n: "CHR ''='' \<notin> set (fst e)" by simp
  have step: "seen_step acc (format_entry e) = acc @ [e]"
    using Cons.prems(1) format_entry_parse [OF n] by (auto simp: seen_step_eq)
  have "foldl seen_step (acc @ [e]) (map format_entry es) = (acc @ [e]) @ es"
    using Cons.prems by (intro Cons.IH) auto
  with step show ?case by simp
qed

lemma seen_fold_fresh:
  "distinct (map fst acc @ map pair_name ps) \<Longrightarrow>
   foldl seen_step acc ps = acc @ map (\<lambda>p. (pair_name p, pair_value p)) ps"
proof (induction ps arbitrary: acc)
  case Nil
  show ?case by simp
next
  case (Cons p ps)
  have step: "seen_step acc p = acc @ [(pair_name p, pair_value p)]"
    using Cons.prems by (auto simp: seen_step_eq)
  have "foldl seen_step (acc @ [(pair_name p, pair_value p)]) ps =
          (acc @ [(pair_name p, pair_value p)]) @ map (\<lambda>p. (pair_name p, pair_value p)) ps"
    using Cons.prems by (intro Cons.IH) auto
  with step show ?case by simp
qed

lemma fixCookies_distinct_names:
  assumes "\<forall>p \<in> set (split_str CHR '';'' '' '' s). CHR ''='' \<in> set p"
    and "distinct (map pair_name (split_str CHR '';'' '' '' s))"
  shows "fixCookies s =
           \<lparr> deduped = s, before_count = length (split_str CHR '';'' '' '' s),
             after_count = length (split_str CHR '';'' '' '' s) \<rparr>"
proof -
  let ?ps = "split_str CHR '';'' '' '' s"
  have seen: "seen_of ?ps = map (\<lambda>p. (pair_name p, pair_value p)) ?ps"
    unfolding seen_of_def using seen_fold_fresh [of "[]" ?ps] assms(2) by simp
  have "map format_entry (seen_of ?ps) = ?ps"
    unfolding seen using assms(1) by (simp add: format_entry_pair map_idI)
  moreover have "join ''; '' ?ps = s" by (rule join_split_str)
  ultimately show ?thesis
    by (simp add: fixCookies_def Let_def seen)
qed

lemma fixCookies_again:
  "fixCookies (deduped (fixCookies s)) =
     \<lparr> deduped = deduped (fixCookies s), before_count = after_count (fixCookies s),
       after_count = after_count (fixCookies s) \<rparr>"
proof -
  let ?ps = "split_str CHR '';'' '' '' s"
  let ?E = "seen_of ?ps"
  have ne: "?E \<noteq> []" by (rule seen_of_nonempty) (rule split_str_nonempty)
  have d: "distinct (map fst ?E)"
    unfolding seen_of_def by (rule seen_fold_distinct) simp
  have c: "\<forall>e \<in> set ?E. CHR ''='' \<notin> set (fst e)"
    unfolding seen_of_def by (rule seen_fold_names_clean)
  have "\<forall>e \<in> set ?E. \<not> has_sep CHR '';'' '' '' (format_entry e)"
    unfolding seen_of_def by (rule seen_fold_no_sep) (rule split_pieces_no_sep)
  then have sp: "split_str CHR '';'' '' '' (join ''; '' (map format_entry ?E)) = map format_entry ?E"
    using ne by (intro split_join_pieces) auto
  have again: "seen_of (map format_entry ?E) = ?E"
    using seen_fold_formatted [of "[]" ?E] d c by (simp add: seen_of_def)
  show ?thesis
    by (simp add: fixCookies_def Let_def sp again)
qed

lemma seen_of_distinct:
  "distinct (map fst (pairs_of s)) \<Longrightarrow> seen_of (split_str CHR '';'' '' '' s) = pairs_of s"
  using seen_fold_fresh [of "[]" "split_str CHR '';'' '' '' s"]
  by (simp add: seen_of_def pairs_of_def comp_def)

lemma split_deduped:
  "split_str CHR '';'' '' '' (deduped (fixCookies s)) =
     map format_entry (seen_of (split_str CHR '';'' '' '' s))"
proof -
  let ?E = "seen_of (split_str CHR '';'' '' '' s)"
  have ne: "?E \<noteq> []" by (rule seen_of_nonempty) (rule split_str_nonempty)
  have "\<forall>e \<in> set ?E. \<not> has_sep CHR '';'' '' '' (format_entry e)"
    unfolding seen_of_def by (rule seen_fold_no_sep) (rule split_pieces_no_sep)
  then have "split_str CHR '';'' '' '' (join ''; '' (map format_entry ?E)) = map format_entry ?E"
    using ne by (intro split_join_pieces) auto
  then show ?thesis by (simp add: fixCookies_def Let_def)
qed

lemma pairs_of_deduped: "pairs_of (deduped (fixCookies s)) = seen_of (split_str CHR '';'' '' '' s)"
proof -
  let ?E = "seen_of (split_str CHR '';'' '' '' s)"
  have c: "\<forall>e \<in> set ?E. CHR ''='' \<notin> set (fst e)"
    unfolding seen_of_def by (rule seen_fold_names_clean)
  have "map (\<lambda>e. (pair_name (format_entry e), pair_value (format_entry e))) ?E = map (\<lambda>e. e) ?E"
    by (rule map_cong) (use c format_entry_parse in auto)
  then have "map (\<lambda>pair. (pair_name pair, pair_value pair)) (map format_entry ?E) = ?E"
    by (simp add: comp_def)
  then show ?thesis by (simp add: pairs_of_def split_deduped)
qed


text \<open>
  Claim C10. When the pairs the utility extracts from a cookie string have pairwise
  distinct names, the map it builds holds the same pairs in the same order, the pairs of the
  string it writes are those pairs again, and the count before equals the count after.
  For every input, running the utility on its own output returns that output again, with
  both counts equal to the first run's after-count.
\<close>

theorem fixCookies_idempotent:
  "(distinct (map fst (pairs_of s)) \<longrightarrow>
      seen_of (split_str CHR '';'' '' '' s) = pairs_of s \<and>
      pairs_of (deduped (fixCookies s)) = pairs_of s \<and>
      before_count (fixCookies s) = after_count (fixCookies s)) \<and>
   fixCookies (deduped (fixCookies s)) =
     \<lparr> deduped = deduped (fixCookies s), before_count = after_count (fixCookies s),
       after_count = after_count (fixCookies s) \<rparr>"
proof (intro conjI impI)
  assume d: "distinct (map fst (pairs_of s))"
  show seen: "seen_of (split_str CHR '';'' '' '' s) = pairs_of s"
    by (rule seen_of_distinct [OF d])
  show "pairs_of (deduped (fixCookies s)) = pairs_of s"
    by (simp add: pairs_of_deduped seen)
  show "before_count (fixCookies s) = after_count (fixCookies s)"
    by (simp add: fixCookies_def Let_def seen) (simp add: pairs_of_def)
next
  show "fixCookies (deduped (fixCookies s)) =
     \<lparr> deduped = deduped (fixCookies s), before_count = after_count (fixCookies s),
       after_count = after_count (fixCookies s) \<rparr>"
    by (rule fixCookies_again)
qed

lemma pairs_of_example: "pairs_of ''SID=1; HSID=x'' = [(''SID'', ''1''), (''HSID'', ''x'')]"
  by (simp add: pairs_of_def pair_name_def pair_value_def substring_def substring_from_def)

lemma pairs_of_empty: "pairs_of [] = [([], [])]"
  by (simp add: pairs_of_def pair_name_def pair_value_def substring_def substring_from_def)

theorem fixCookies_idempotent_witness:
  "pairs_of (deduped (fixCookies ''SID=1; HSID=x'')) = [(''SID'', ''1''), (''HSID'', ''x'')] \<and>
   before_count (fixCookies ''SID=1; HSID=x'') = after_count (fixCookies ''SID=1; HSID=x'') \<and>
   fixCookies (deduped (fixCookies ''SID=1; HSID=x'')) =
     \<lparr> deduped = ''SID=1; HSID=x'', before_count = 2, after_count = 2 \<rparr> \<and>
   pairs_of (deduped (fixCookies [])) = [([], [])] \<and>
   before_count (fixCookies []) = after_count (fixCookies [])"
proof -
  have h: "distinct (map fst (pairs_of ''SID=1; HSID=x''))"
    by (simp add: pairs_of_example)
  have h0: "distinct (map fst (pairs_of []))"
    by (simp add: pairs_of_empty)
  have v: "fixCookies ''SID=1; HSID=x'' =
             \<lparr> deduped = ''SID=1; HSID=x'', before_count = 2, after_count = 2 \<rparr>"
    by (simp add: fixCookies_def seen_of_def seen_step_def pair_name_def pair_value_def
          substring_def substring_from_def format_entry_def)
  from fixCookies_idempotent [of "''SID=1; HSID=x''"] h fixCookies_idempotent [of "[]"] h0
  show ?thesis
    by (simp add: pairs_of_example pairs_of_empty v)
qed

text \<open>
  The string itself is not always kept: a piece without \<open>=\<close> is written back behind an
  \<open>=\<close>, so the empty cookie string becomes \<open>=\<close>. Its one pair, the empty name with the
  empty value, is the same before and after.
\<close>

lemma fixCookies_empty_string:
  "fixCookies [] = \<lparr> deduped = ''='', before_count = 1, after_count = 1 \<rparr>"
  by (simp add: fixCookies_def seen_of_def seen_step_def pair_name_def pair_value_def
        substring_def substring_from_def format_entry_def)

section \<open>The session record as JSON text\<close>

lemma hex_val_digit: "d < 16 \<Longrightarrow> hex_val (hex_digit d) = Some d"
  by (simp add: hex_val_def hex_digit_def Let_def)

lemma hex4_low:
  assumes "n < 256"
  shows "hex4 CHR ''0'' CHR ''0'' (hex_digit (n div 16)) (hex_digit (n mod 16)) = Some n"
proof -
  have a: "hex_val (hex_digit (n div 16)) = Some (n div 16)"
    using assms by (intro hex_val_digit) simp
  have b: "hex_val (hex_digit (n mod 16)) = Some (n mod 16)"
    by (intro hex_val_digit) simp
  have z: "hex_val CHR ''0'' = Some 0" by (simp add: hex_val_def)
  show ?thesis by (simp add: hex4_def a b z)
qed

lemma parse_chars_escape: "parse_chars (json_escape c @ r) = cons_result c (parse_chars r)"
proof -
  have lt: "(of_char c :: nat) < 256" by simp
  consider (q) "c = dquote" | (b) "c = backslash"
    | (s) "c \<in> {CHR 0x08, CHR 0x0C, CHR 0x0A, CHR 0x0D, CHR 0x09}"
    | (u) "c \<noteq> dquote" "c \<noteq> backslash"
          "c \<notin> {CHR 0x08, CHR 0x0C, CHR 0x0A, CHR 0x0D, CHR 0x09}" "(of_char c :: nat) < 32"
    | (p) "c \<noteq> dquote" "c \<noteq> backslash" "\<not> (of_char c :: nat) < 32"
    by auto
  then show ?thesis
  proof cases
    case q
    then show ?thesis
      by (simp add: json_escape_def unescape_char_def dquote_def backslash_def)
  next
    case b
    then show ?thesis
      by (simp add: json_escape_def unescape_char_def dquote_def backslash_def)
  next
    case s
    then show ?thesis
      by (auto simp: json_escape_def unescape_char_def dquote_def backslash_def)
  next
    case u
    have "json_escape c = [backslash, CHR ''u'', CHR ''0'', CHR ''0'',
            hex_digit ((of_char c :: nat) div 16), hex_digit ((of_char c :: nat) mod 16)]"
      using u by (simp add: json_escape_def)
    then show ?thesis
      using hex4_low [OF lt] by (simp add: dquote_def backslash_def)
  next
    case p
    then have "json_escape c = [c]"
      by (auto simp: json_escape_def)
    with p show ?thesis by simp
  qed
qed

lemma parse_chars_quoted:
  "parse_chars (concat (map json_escape s) @ dquote # r) = Some (s, r)"
  by (induction s) (simp_all add: parse_chars_escape cons_result_def)

lemma parse_string_quoteJSON: "parse_string (quoteJSON s @ r) = Some (s, r)"
  using parse_chars_quoted [of s r] by (simp add: parse_string_def quoteJSON_def)


lemma skip_ws_prefix: "\<forall>c \<in> set w. is_ws c \<Longrightarrow> \<not> is_ws x \<Longrightarrow> skip_ws (w @ x # r) = x # r"
  by (induction w) (simp_all add: skip_ws_def)

lemma skip_ws_quote: "\<forall>c \<in> set w. is_ws c \<Longrightarrow> skip_ws (w @ quoteJSON s @ r) = quoteJSON s @ r"
  using skip_ws_prefix [of w dquote] by (simp add: quoteJSON_def is_ws_def dquote_def)

lemma skip_ws_newline: "skip_ws (newline # r) = skip_ws r"
  by (simp add: skip_ws_def is_ws_def newline_def)

lemma skip_ws_stop: "\<not> is_ws c \<Longrightarrow> skip_ws (c # r) = c # r"
  by (simp add: skip_ws_def)

lemma parse_member_text:
  assumes "\<forall>c \<in> set w. is_ws c"
  shows "parse_member (w @ quoteJSON k @ CHR '':'' # CHR '' '' # quoteJSON v @ r) = Some ((k, v), skip_ws r)"
proof -
  have a: "skip_ws (w @ quoteJSON k @ CHR '':'' # CHR '' '' # quoteJSON v @ r) =
             quoteJSON k @ CHR '':'' # CHR '' '' # quoteJSON v @ r"
    by (rule skip_ws_quote [OF assms])
  have b: "parse_string (quoteJSON k @ CHR '':'' # CHR '' '' # quoteJSON v @ r) =
             Some (k, CHR '':'' # CHR '' '' # quoteJSON v @ r)"
    by (rule parse_string_quoteJSON)
  have c: "skip_ws (CHR '':'' # CHR '' '' # quoteJSON v @ r) = CHR '':'' # CHR '' '' # quoteJSON v @ r"
    by (rule skip_ws_stop) (simp add: is_ws_def)
  have d: "skip_ws (CHR '' '' # quoteJSON v @ r) = quoteJSON v @ r"
    using skip_ws_quote [of "[CHR '' '']" v r] by (simp add: is_ws_def)
  have e: "parse_string (quoteJSON v @ r) = Some (v, r)"
    by (rule parse_string_quoteJSON)
  show ?thesis
    unfolding parse_member_def a b by (simp add: c d e)
qed

lemma parse_member_line:
  "parse_member (newline # stringify_member m @ r) = Some (m, skip_ws r)"
  using parse_member_text [of "[newline, CHR '' '', CHR '' '']" "fst m" "snd m" r]
  by (simp add: stringify_member_def is_ws_def newline_def)

lemma parse_members_last:
  "parse_members acc (newline # stringify_member m @ newline # ''}'') = Some (map_set acc (fst m) (snd m))"
proof -
  have pm: "parse_member (newline # stringify_member m @ newline # ''}'') = Some (m, ''}'')"
    by (simp add: parse_member_line skip_ws_newline skip_ws_stop is_ws_def)
  show ?thesis
    by (subst parse_members.simps, subst pm) (simp add: skip_ws_def del: parse_members.simps)
qed

lemma parse_members_next:
  "parse_members acc (newline # stringify_member m @ CHR '','' # t) =
     parse_members (map_set acc (fst m) (snd m)) t"
proof -
  have pm: "parse_member (newline # stringify_member m @ CHR '','' # t) = Some (m, CHR '','' # t)"
    by (simp add: parse_member_line skip_ws_stop is_ws_def)
  show ?thesis
    by (subst parse_members.simps, subst pm) (simp del: parse_members.simps)
qed

lemma parse_members_lines:
  "parse_members acc (newline # join (CHR '','' # [newline]) (map stringify_member (m # ms)) @ newline # ''}'') =
     Some (foldl (\<lambda>obj kv. map_set obj (fst kv) (snd kv)) acc (m # ms))"
proof (induction ms arbitrary: m acc)
  case Nil
  show ?case by (simp add: parse_members_last del: parse_members.simps)
next
  case (Cons m' ms)
  define rest where "rest = join (CHR '','' # [newline]) (map stringify_member (m' # ms)) @ newline # ''}''"
  have shape: "newline # join (CHR '','' # [newline]) (map stringify_member (m # m' # ms)) @ newline # ''}'' =
               newline # stringify_member m @ CHR '','' # newline # rest"
    by (simp add: rest_def)
  have "parse_members acc (newline # stringify_member m @ CHR '','' # newline # rest) =
          parse_members (map_set acc (fst m) (snd m)) (newline # rest)"
    by (rule parse_members_next)
  also have "\<dots> = Some (foldl (\<lambda>obj kv. map_set obj (fst kv) (snd kv)) (map_set acc (fst m) (snd m)) (m' # ms))"
    unfolding rest_def by (rule Cons.IH)
  finally show ?case unfolding shape by (simp del: parse_members.simps)
qed

lemma skip_ws_member: "skip_ws (newline # stringify_member m @ r) = quoteJSON (fst m) @ CHR '':'' # CHR '' '' # quoteJSON (snd m) @ r"
  using skip_ws_quote [of "[newline, CHR '' '', CHR '' '']" "fst m" "CHR '':'' # CHR '' '' # quoteJSON (snd m) @ r"]
  by (simp add: stringify_member_def is_ws_def newline_def)

lemma JSON_parse_stringify_fold:
  "JSON_parse (stringify obj) = Some (foldl (\<lambda>obj kv. map_set obj (fst kv) (snd kv)) [] obj)"
proof (cases obj)
  case Nil
  then show ?thesis by (simp add: stringify_def JSON_parse_def skip_ws_def is_ws_def)
next
  case (Cons m ms)
  define body where
    "body = newline # join (CHR '','' # [newline]) (map stringify_member (m # ms)) @ newline # ''}''"
  have st: "stringify obj = CHR ''{'' # body"
    using Cons by (simp add: stringify_def body_def)
  have "\<exists>t. join (CHR '','' # [newline]) (map stringify_member (m # ms)) @ newline # ''}'' = stringify_member m @ t"
    by (cases ms) simp_all
  then obtain t where "body = newline # stringify_member m @ t" by (auto simp: body_def)
  then obtain u where sk: "skip_ws body = dquote # u"
    by (simp add: skip_ws_member quoteJSON_def)
  have ne: "dquote \<noteq> CHR ''}''" by (simp add: dquote_def)
  have open_brace: "skip_ws (CHR ''{'' # body) = CHR ''{'' # body"
    by (rule skip_ws_stop) (simp add: is_ws_def)
  have "JSON_parse (CHR ''{'' # body) = parse_members [] body"
    unfolding JSON_parse_def open_brace using ne by (simp add: sk del: parse_members.simps)
  also have "\<dots> = Some (foldl (\<lambda>obj kv. map_set obj (fst kv) (snd kv)) [] (m # ms))"
    unfolding body_def by (rule parse_members_lines)
  finally show ?thesis unfolding st using Cons by simp
qed

lemma fold_map_set_distinct:
  "distinct (map fst (acc @ ms)) \<Longrightarrow>
   foldl (\<lambda>obj kv. map_set obj (fst kv) (snd kv)) acc ms = acc @ ms"
proof (induction ms arbitrary: acc)
  case Nil
  show ?case by simp
next
  case (Cons m ms)
  have "\<not> map_has acc (fst m)" using Cons.prems by (auto simp: map_has_iff)
  then have step: "map_set acc (fst m) (snd m) = acc @ [m]" by (simp add: map_set_fresh)
  have "foldl (\<lambda>obj kv. map_set obj (fst kv) (snd kv)) (acc @ [m]) ms = (acc @ [m]) @ ms"
    using Cons.prems by (intro Cons.IH) simp
  with step show ?case by simp
qed

lemma JSON_parse_stringify: "distinct (map fst obj) \<Longrightarrow> JSON_parse (stringify obj) = Some obj"
  using fold_map_set_distinct [of "[]" obj] by (simp add: JSON_parse_stringify_fold)

section \<open>Timestamps\<close>

lemma is_digit_digit_char: "d < 10 \<Longrightarrow> is_digit (digit_char d)"
  by (simp add: is_digit_def digit_char_def)

lemma matches_append:
  "matches_pattern p s \<Longrightarrow> matches_pattern q t \<Longrightarrow> matches_pattern (p @ q) (s @ t)"
  by (induction p s rule: matches_pattern.induct) auto


lemma matches_digits: "matches_pattern (replicate w CHR ''d'') (pad_dec w n)"
proof (induction w arbitrary: n)
  case 0
  show ?case by simp
next
  case (Suc w)
  have "is_digit (digit_char (n mod 10))" by (rule is_digit_digit_char) simp
  then have "matches_pattern [CHR ''d''] [digit_char (n mod 10)]" by simp
  with Suc.IH [of "n div 10"]
  have "matches_pattern (replicate w CHR ''d'' @ [CHR ''d'']) (pad_dec w (n div 10) @ [digit_char (n mod 10)])"
    by (rule matches_append)
  then show ?case by (simp only: replicate_append_same pad_dec.simps replicate.simps)
qed

lemma matches_d2: "matches_pattern ''dd'' (pad_dec 2 n)"
proof -
  have "matches_pattern (replicate (Suc (Suc 0)) CHR ''d'') (pad_dec (Suc (Suc 0)) n)"
    by (rule matches_digits)
  then show ?thesis by (simp only: replicate.simps numeral_2_eq_2)
qed


lemma matches_d3: "matches_pattern ''ddd'' (pad_dec 3 n)"
proof -
  have "matches_pattern (replicate (Suc (Suc (Suc 0))) CHR ''d'') (pad_dec (Suc (Suc (Suc 0))) n)"
    by (rule matches_digits)
  then show ?thesis by (simp only: replicate.simps numeral_3_eq_3)
qed

lemma matches_d4: "matches_pattern ''dddd'' (pad_dec 4 n)"
proof -
  have "matches_pattern (replicate (Suc (Suc (Suc (Suc 0)))) CHR ''d'') (pad_dec (Suc (Suc (Suc (Suc 0)))) n)"
    by (rule matches_digits)
  moreover have "(4 :: nat) = Suc (Suc (Suc (Suc 0)))" by simp
  ultimately show ?thesis by (simp only: replicate.simps)
qed

lemma matches_d6: "matches_pattern ''dddddd'' (pad_dec 6 n)"
proof -
  have "matches_pattern (replicate (Suc (Suc (Suc (Suc (Suc (Suc 0)))))) CHR ''d'')
          (pad_dec (Suc (Suc (Suc (Suc (Suc (Suc 0)))))) n)"
    by (rule matches_digits)
  moreover have "(6 :: nat) = Suc (Suc (Suc (Suc (Suc (Suc 0)))))" by simp
  ultimately show ?thesis by (simp only: replicate.simps)
qed

lemma matches_lit:
  "matches_pattern ''-'' ''-''" "matches_pattern ''T'' ''T''" "matches_pattern '':'' '':''"
  "matches_pattern ''.'' ''.''" "matches_pattern ''Z'' ''Z''" "matches_pattern ''+'' ''+''"
  by simp_all

lemma matches_tail:
  "matches_pattern ''-dd-ddTdd:dd:dd.dddZ''
     (''-'' @ pad_dec 2 mo @ ''-'' @ pad_dec 2 d @ ''T'' @ pad_dec 2 h @ '':'' @ pad_dec 2 mi @
      '':'' @ pad_dec 2 se @ ''.'' @ pad_dec 3 ms @ ''Z'')"
proof -
  have "matches_pattern (''-'' @ ''dd'' @ ''-'' @ ''dd'' @ ''T'' @ ''dd'' @ '':'' @ ''dd'' @ '':'' @ ''dd'' @ ''.'' @ ''ddd'' @ ''Z'')
     (''-'' @ pad_dec 2 mo @ ''-'' @ pad_dec 2 d @ ''T'' @ pad_dec 2 h @ '':'' @ pad_dec 2 mi @
      '':'' @ pad_dec 2 se @ ''.'' @ pad_dec 3 ms @ ''Z'')"
    by (rule matches_append matches_d2 matches_d3 matches_lit)+
  then show ?thesis by (simp only: append.simps)
qed


lemma toISOString_shape: "is_iso8601 (toISOString t)"
proof -
  define rest where "rest = ''-'' @ pad_dec 2 (t_month t) @ ''-'' @ pad_dec 2 (t_day t) @ ''T'' @
      pad_dec 2 (t_hours t) @ '':'' @ pad_dec 2 (t_minutes t) @ '':'' @
      pad_dec 2 (t_seconds t) @ ''.'' @ pad_dec 3 (t_millis t) @ ''Z''"
  have iso: "toISOString t = year_string (t_year t) @ rest"
    by (simp only: toISOString_def rest_def)
  have rest: "matches_pattern ''-dd-ddTdd:dd:dd.dddZ'' rest"
    unfolding rest_def by (rule matches_tail)
  consider (plain) "0 \<le> t_year t \<and> t_year t \<le> 9999" | (neg) "t_year t < 0" | (big) "9999 < t_year t"
    by linarith
  then show ?thesis
  proof cases
    case plain
    then have y: "year_string (t_year t) = pad_dec 4 (nat (t_year t))" by (simp add: year_string_def)
    have "matches_pattern (''dddd'' @ ''-dd-ddTdd:dd:dd.dddZ'') (toISOString t)"
      unfolding iso y by (rule matches_append [OF matches_d4 rest])
    then show ?thesis by (simp only: is_iso8601_def append.simps) simp
  next
    case neg
    then have y: "year_string (t_year t) = ''-'' @ pad_dec 6 (nat \<bar>t_year t\<bar>)" by (simp add: year_string_def)
    have "matches_pattern ((''-'' @ ''dddddd'') @ ''-dd-ddTdd:dd:dd.dddZ'') (toISOString t)"
      unfolding iso y by (rule matches_append [OF matches_append [OF matches_lit(1) matches_d6] rest])
    then show ?thesis by (simp only: is_iso8601_def append.simps) simp
  next
    case big
    then have y: "year_string (t_year t) = ''+'' @ pad_dec 6 (nat \<bar>t_year t\<bar>)" by (simp add: year_string_def)
    have "matches_pattern ((''+'' @ ''dddddd'') @ ''-dd-ddTdd:dd:dd.dddZ'') (toISOString t)"
      unfolding iso y by (rule matches_append [OF matches_append [OF matches_lit(6) matches_d6] rest])
    then show ?thesis by (simp only: is_iso8601_def append.simps) simp
  qed
qed

section \<open>Saving and loading the record\<close>

lemma dirname_authPath: "dirname (authPath (new_AuthManager home)) = home @ ''/.notebooklm-mcp''"
  by (simp add: new_AuthManager_def path_join_def dirname_def)

lemma save_session_file:
  "files (save_session mgr now s fs) (authPath mgr) = Some (stringify (authData s now))"
  by (simp add: save_session_def writeFileSync_def Let_def)

lemma save_session_other:
  "p \<noteq> authPath mgr \<Longrightarrow> files (save_session mgr now s fs) p = files fs p"
  by (simp add: save_session_def writeFileSync_def mkdirSync_def Let_def)

lemma save_session_dir: "dirname (authPath mgr) \<in> dirs (save_session mgr now s fs) \<or> files fs (dirname (authPath mgr)) \<noteq> None"
  by (auto simp: save_session_def writeFileSync_def mkdirSync_def existsSync_def Let_def)

lemma JSON_parse_authData: "JSON_parse (stringify (authData s now)) = Some (authData s now)"
  by (rule JSON_parse_stringify) (simp add: authData_def)

lemma read_json_record:
  "files fs p = Some (stringify (authData s now)) \<Longrightarrow> read_json fs p = Inr (authData s now)"
  by (simp add: read_json_def readFileSync_def JSON_parse_authData)

lemma getSavedCookies_record:
  "files fs (authPath mgr) = Some (stringify (authData s now)) \<Longrightarrow>
   getSavedCookies mgr fs = Inr (JsString s)"
  by (simp add: getSavedCookies_def existsSync_def read_json_record get_property_def authData_def)

lemma getSavedCookies_saved:
  "getSavedCookies mgr (save_session mgr now s fs) = Inr (JsString s)"
  by (rule getSavedCookies_record) (rule save_session_file)

text \<open>
  Claim C6. Once a record with cookie string \<open>s\<close> has been saved, \<open>getSavedCookies\<close> returns
  exactly \<open>s\<close>, whatever the string and whatever was stored before; and when nothing exists
  at the record's path, \<open>getSavedCookies\<close> fails with \<open>NotAuthenticated\<close>.
\<close>

theorem save_then_load:
  "getSavedCookies mgr (save_session mgr now s fs) = Inr (JsString s) \<and>
   (\<not> existsSync fs (authPath mgr) \<longrightarrow> getSavedCookies mgr fs = Inl NotAuthenticated)"
  by (simp add: getSavedCookies_saved) (simp add: getSavedCookies_def)

theorem save_then_load_witness:
  "getSavedCookies (new_AuthManager ''/home/u'')
     (save_session (new_AuthManager ''/home/u'')
        \<lparr> t_year = 2026, t_month = 1, t_day = 9, t_hours = 3, t_minutes = 4, t_seconds = 5,
          t_millis = 67 \<rparr>
        ''SID=a; HSID=b; SSID=c; APISID=d; SAPISID=e''
        \<lparr> files = Map.empty, dirs = {} \<rparr>) =
     Inr (JsString ''SID=a; HSID=b; SSID=c; APISID=d; SAPISID=e'') \<and>
   getSavedCookies (new_AuthManager ''/home/u'') \<lparr> files = Map.empty, dirs = {} \<rparr> =
     Inl NotAuthenticated"
proof -
  have absent: "\<not> existsSync \<lparr> files = Map.empty, dirs = {} \<rparr> (authPath (new_AuthManager ''/home/u''))"
    by (simp add: existsSync_def)
  from save_then_load [of "new_AuthManager ''/home/u''"
      "\<lparr> t_year = 2026, t_month = 1, t_day = 9, t_hours = 3, t_minutes = 4, t_seconds = 5,
         t_millis = 67 \<rparr>"
      "''SID=a; HSID=b; SSID=c; APISID=d; SAPISID=e''" "\<lparr> files = Map.empty, dirs = {} \<rparr>"] absent
  show ?thesis by blast
qed


section \<open>Runs of \<open>runAuthentication\<close>\<close>

lemma run_success:
  "fst (wait_for_login b) = Inr te \<Longrightarrow>
   outcome (runAuthentication mgr b now fs) = Inr () \<and>
   fs_after (runAuthentication mgr b now fs) =
     save_session mgr now (cookieString_of (cookieMap_of (allCookies_at b te))) fs \<and>
   console (runAuthentication mgr b now fs) =
     (if missingCookies (cookieMap_of (allCookies_at b te)) \<noteq> []
      then [''Warning: Missing required cookies: '' @
            join '', '' (missingCookies (cookieMap_of (allCookies_at b te)))]
      else []) @
     [''Extracted '' @ show_nat (length (cookieMap_of (allCookies_at b te))) @
        '' unique cookies for notebooklm.google.com'',
      ''Authentication successful! Cookies saved to '' @ authPath mgr]"
  by (simp add: runAuthentication_def Let_def)

lemma run_failure:
  "fst (wait_for_login b) = Inl e \<Longrightarrow>
   outcome (runAuthentication mgr b now fs) = Inl e \<and>
   fs_after (runAuthentication mgr b now fs) = fs \<and>
   console (runAuthentication mgr b now fs) = []"
  by (simp add: runAuthentication_def Let_def)

section \<open>The bounded wait\<close>

lemma checkLoop_before_stop: "checkLoop b stop t = Some t' \<Longrightarrow> t' < stop"
proof (induction b stop t rule: checkLoop.induct)
  case (1 b stop t)
  from "1.prems" show ?case
    by (subst (asm) checkLoop.simps) (auto split: if_splits dest: "1.IH")
qed


lemma read_json_saved:
  "read_json (save_session mgr now s fs) (authPath mgr) = Inr (authData s now)"
  by (rule read_json_record) (rule save_session_file)

text \<open>
  Claim C9. The record a successful run persists is a JSON object with exactly the two
  members \<open>cookies\<close> and \<open>updatedAt\<close>: \<open>cookies\<close> is the one string made of the entries
  \<open>name=value\<close> of the cookie map joined by \<open>; \<close>, and \<open>updatedAt\<close> is the clock's reading
  in the ISO-8601 form of \<open>toISOString\<close>.
\<close>

theorem persisted_record_shape:
  assumes "fst (wait_for_login b) = Inr te"
  shows "read_json (fs_after (runAuthentication mgr b now fs)) (authPath mgr) =
           Inr [(''cookies'', join ''; '' (map format_entry (cookieMap_of (allCookies_at b te)))),
                (''updatedAt'', toISOString now)] \<and>
         is_iso8601 (toISOString now)"
  using run_success [OF assms, of mgr now fs]
  by (simp add: read_json_saved authData_def cookieString_of_def toISOString_shape)


lemma checkLoop_none:
  assumes "\<And>k. t + k * poll_interval < stop \<Longrightarrow> \<not> sid_on_target b (t + k * poll_interval)"
  shows "checkLoop b stop t = None"
  using assms
proof (induction b stop t rule: checkLoop.induct)
  case (1 b stop t)
  show ?case
  proof (cases "stop \<le> t \<or> \<not> alive b t")
    case True
    then show ?thesis by (subst checkLoop.simps) auto
  next
    case False
    then have now: "\<not> sid_on_target b t" using "1.prems" [of 0] by simp
    have "checkLoop b stop (t + poll_interval) = None"
    proof (rule "1.IH")
      show "\<not> stop \<le> t" using False by simp
      show "\<not> \<not> alive b t" using False by simp
      show "\<not> sid_on_target b t" by (rule now)
      fix k
      assume "t + poll_interval + k * poll_interval < stop"
      then show "\<not> sid_on_target b (t + poll_interval + k * poll_interval)"
        using "1.prems" [of "Suc k"] by (simp add: add.assoc)
    qed
    with False now show ?thesis by (subst checkLoop.simps) simp
  qed
qed

lemma deadline_le: "deadline b timeout \<le> timeout"
  by (simp add: deadline_def split: option.splits)

lemma waiter_bound: "settle_time (waiter b signal timeout) \<le> timeout"
  using deadline_le [of b timeout] by (auto simp: waiter_def split: option.splits)

lemma waiter_no_signal:
  "\<forall>t. signal = Some t \<longrightarrow> timeout \<le> t \<Longrightarrow> waiter b signal timeout = Rejected (deadline b timeout)"
  using deadline_le [of b timeout] by (auto simp: waiter_def split: option.splits)

lemma earliest_bound:
  "settle_time x \<le> n \<Longrightarrow> settle_time (earliest x y) \<le> n"
  by (simp add: earliest_def)

lemma race_login_bound: "settle_time (race_login b) \<le> login_timeout"
proof -
  define first where "first = earliest (earliest (waiter b (url_signal b) login_timeout)
      (waiter b (main_signal b) login_timeout)) (waiter b (account_signal b) login_timeout)"
  have fb: "settle_time first \<le> login_timeout"
    unfolding first_def by (intro earliest_bound waiter_bound)
  have "race_login b = (case checkLoop b (settle_time first) 0 of Some t \<Rightarrow> Resolved t | None \<Rightarrow> first)"
    unfolding race_login_def Let_def first_def by (rule refl)
  then show ?thesis
    using fb checkLoop_before_stop [of b "settle_time first" 0]
    by (cases "checkLoop b (settle_time first) 0") auto
qed

lemma race_login_timeout:
  assumes "\<forall>t. url_signal b = Some t \<longrightarrow> login_timeout \<le> t"
    and "\<forall>t. main_signal b = Some t \<longrightarrow> login_timeout \<le> t"
    and "\<forall>t. account_signal b = Some t \<longrightarrow> login_timeout \<le> t"
    and "\<forall>k. k * poll_interval < login_timeout \<longrightarrow> \<not> sid_on_target b (k * poll_interval)"
  shows "race_login b = Rejected (deadline b login_timeout)"
proof -
  have "checkLoop b (deadline b login_timeout) 0 = None"
  proof (rule checkLoop_none)
    fix k
    assume "0 + k * poll_interval < deadline b login_timeout"
    then have "k * poll_interval < login_timeout"
      using deadline_le [of b login_timeout] by simp
    then show "\<not> sid_on_target b (0 + k * poll_interval)"
      using assms(4) by simp
  qed
  then show ?thesis
    by (simp add: race_login_def Let_def waiter_no_signal assms earliest_def)
qed

lemma parse_target_url:
  "parse_url target_url =
     Some \<lparr> protocol = ''https:'', hostname = ''notebooklm.google.com'', pathname = ''/'' \<rparr>"
  by (simp add: parse_url_def target_url_def Let_def)

lemma cookie_applies_target:
  "cookie_applies target_url c \<longleftrightarrow>
     domain_matches (c_domain c) target_host \<and> prefix (c_path c) ''/''"
  by (simp add: cookie_applies_def parse_target_url target_host_def)

lemma domain_matches_examples:
  "domain_matches ''notebooklm.google.com'' target_host"
  "domain_matches ''.google.com'' target_host"
  "\<not> domain_matches ''.youtube.com'' target_host"
  by (simp_all add: domain_matches_def ends_with_def target_host_def)

lemma login_browser_race: "race_login login_browser = Resolved 5000"
  by (simp add: race_login_def waiter_def deadline_def login_browser_def login_timeout_def
        earliest_def checkLoop.simps poll_interval_def alive_def sid_on_target_def
        str_includes_def Let_def)

lemma login_browser_wait: "fst (wait_for_login login_browser) = Inr 5000"
  by (simp add: wait_for_login_def login_browser_race)
    (simp add: login_browser_def login_jar_def has_sid_def youtube_sid_def)

lemma login_browser_cookies:
  "allCookies_at login_browser 5000 =
     [\<lparr> c_name = ''SID'', c_value = ''a'', c_domain = ''.google.com'', c_path = ''/'',
        c_secure = True \<rparr>,
      \<lparr> c_name = ''NID'', c_value = ''1'', c_domain = ''notebooklm.google.com'', c_path = ''/'',
        c_secure = True \<rparr>,
      \<lparr> c_name = ''SID'', c_value = ''b'', c_domain = ''notebooklm.google.com'', c_path = ''/'',
        c_secure = True \<rparr>]"
  by (simp add: allCookies_at_def login_browser_def login_jar_def youtube_sid_def
        cookie_applies_target domain_matches_examples)

lemma login_browser_map:
  "cookieMap_of (allCookies_at login_browser 5000) = [(''SID'', ''b''), (''NID'', ''1'')]"
  by (simp add: login_browser_cookies cookieMap_of_def)


lemma alive_before_deadline: "t < deadline b timeout \<Longrightarrow> alive b t"
  by (simp add: deadline_def alive_def split: option.splits)

lemma checkLoop_first:
  assumes "t0 + k * poll_interval < stop"
    and "sid_on_target b (t0 + k * poll_interval)"
    and "\<And>j. j < k \<Longrightarrow> \<not> sid_on_target b (t0 + j * poll_interval)"
    and "\<And>t. t < stop \<Longrightarrow> alive b t"
  shows "checkLoop b stop t0 = Some (t0 + k * poll_interval)"
  using assms
proof (induction k arbitrary: t0)
  case 0
  then show ?case by (subst checkLoop.simps) simp
next
  case (Suc k)
  have lt: "t0 < stop" using Suc.prems(1) by simp
  have no: "\<not> sid_on_target b t0" using Suc.prems(3) [of 0] by simp
  have "checkLoop b stop (t0 + poll_interval) = Some (t0 + poll_interval + k * poll_interval)"
  proof (rule Suc.IH)
    show "t0 + poll_interval + k * poll_interval < stop"
      using Suc.prems(1) by (simp add: add.assoc)
    show "sid_on_target b (t0 + poll_interval + k * poll_interval)"
      using Suc.prems(2) by (simp add: add.assoc)
    show "\<not> sid_on_target b (t0 + poll_interval + j * poll_interval)" if "j < k" for j
      using Suc.prems(3) [of "Suc j"] that by (simp add: add.assoc)
    show "alive b t" if "t < stop" for t using Suc.prems(4) that by simp
  qed
  then show ?case
    using lt no Suc.prems(4) [of t0] by (subst checkLoop.simps) (simp add: add.assoc)
qed

lemma waiter_cases:
  "waiter b signal timeout = Rejected (deadline b timeout) \<and>
     (\<forall>t. signal = Some t \<longrightarrow> deadline b timeout \<le> t) \<or>
   (\<exists>t. waiter b signal timeout = Resolved t \<and> signal = Some t \<and> t < deadline b timeout)"
  by (auto simp: waiter_def split: option.splits)

lemma earliest_cases: "earliest x y = x \<and> settle_time x \<le> settle_time y \<or>
    earliest x y = y \<and> settle_time y < settle_time x"
  by (simp add: earliest_def)

lemma race_login_first:
  "race_login b = (case checkLoop b (settle_time (first_of b)) 0 of
                     Some t \<Rightarrow> Resolved t | None \<Rightarrow> first_of b)"
  unfolding race_login_def Let_def first_of_def by (rule refl)

lemma first_of_cases:
  "first_of b = Rejected (deadline b login_timeout) \<and>
     (\<forall>t. url_signal b = Some t \<or> main_signal b = Some t \<or> account_signal b = Some t \<longrightarrow>
          deadline b login_timeout \<le> t) \<or>
   (\<exists>tw. first_of b = Resolved tw \<and> tw < deadline b login_timeout \<and>
      (url_signal b = Some tw \<or> main_signal b = Some tw \<or> account_signal b = Some tw) \<and>
      (\<forall>t. url_signal b = Some t \<or> main_signal b = Some t \<or> account_signal b = Some t \<longrightarrow>
          tw \<le> t))"
  using waiter_cases [of b "url_signal b" login_timeout]
    waiter_cases [of b "main_signal b" login_timeout]
    waiter_cases [of b "account_signal b" login_timeout]
  unfolding first_of_def earliest_def
  by (elim disjE conjE exE) (simp_all, auto)


lemma race_login_rejected:
  assumes "\<forall>t. t < deadline b login_timeout \<longrightarrow> \<not> signal_at b t"
  shows "race_login b = Rejected (deadline b login_timeout)"
proof -
  have f: "first_of b = Rejected (deadline b login_timeout)"
    using first_of_cases [of b] assms by (auto simp: signal_at_def)
  have "checkLoop b (deadline b login_timeout) 0 = None"
  proof (rule checkLoop_none)
    fix k
    assume "0 + k * poll_interval < deadline b login_timeout"
    then have "\<not> signal_at b (k * poll_interval)" using assms by simp
    then show "\<not> sid_on_target b (0 + k * poll_interval)"
      by (simp add: signal_at_def)
  qed
  then show ?thesis by (simp add: race_login_first f)
qed

lemma race_login_resolved:
  assumes lt: "t < deadline b login_timeout"
    and sig: "signal_at b t"
    and least: "\<forall>t'. t' < t \<longrightarrow> \<not> signal_at b t'"
  shows "race_login b = Resolved t"
proof -
  define stop where "stop = settle_time (first_of b)"
  have quiet: "\<not> sid_on_target b (k * poll_interval)" if "k * poll_interval < t" for k
    using least that by (auto simp: signal_at_def)
  have stop_le: "stop \<le> deadline b login_timeout"
    using first_of_cases [of b] by (auto simp: stop_def)
  show ?thesis
  proof (cases "url_signal b = Some t \<or> main_signal b = Some t \<or> account_signal b = Some t")
    case True
    have f: "first_of b = Resolved t"
    proof -
      have "\<not> (\<forall>u. url_signal b = Some u \<or> main_signal b = Some u \<or> account_signal b = Some u \<longrightarrow>
                 deadline b login_timeout \<le> u)"
        using True lt by (metis not_le)
      with first_of_cases [of b] obtain tw where
        tw1: "first_of b = Resolved tw"
        and tw3: "url_signal b = Some tw \<or> main_signal b = Some tw \<or> account_signal b = Some tw"
        and tw4: "\<forall>u. url_signal b = Some u \<or> main_signal b = Some u \<or> account_signal b = Some u \<longrightarrow>
                 tw \<le> u"
        by blast
      from tw4 True have tw2: "tw \<le> t" by blast
      note tw = tw1 tw2 tw3
      have "signal_at b tw" using tw(3) by (auto simp: signal_at_def)
      with least have "\<not> tw < t" by blast
      with tw(1,2) show ?thesis by simp
    qed
    have "checkLoop b t 0 = None"
    proof (rule checkLoop_none)
      fix k
      assume "0 + k * poll_interval < t"
      then show "\<not> sid_on_target b (0 + k * poll_interval)" using quiet by simp
    qed
    then show ?thesis by (simp add: race_login_first f)
  next
    case False
    with sig have poll: "poll_interval dvd t" "sid_on_target b t"
      by (auto simp: signal_at_def)
    from poll(1) obtain k where k: "t = k * poll_interval"
      unfolding dvd_def by (auto simp: mult.commute)
    have "t < stop"
    proof (rule ccontr)
      assume "\<not> t < stop"
      then have "stop \<le> t" by simp
      with lt first_of_cases [of b] obtain tw where
        tw: "first_of b = Resolved tw" "tw \<le> t"
        "url_signal b = Some tw \<or> main_signal b = Some tw \<or> account_signal b = Some tw"
        by (auto simp: stop_def)
      have "signal_at b tw" using tw(3) by (auto simp: signal_at_def)
      with least have "\<not> tw < t" by blast
      with tw(2) have "tw = t" by simp
      with tw(3) False show False by simp
    qed
    have "checkLoop b stop 0 = Some (0 + k * poll_interval)"
    proof (rule checkLoop_first)
      show "0 + k * poll_interval < stop" using \<open>t < stop\<close> k by simp
      show "sid_on_target b (0 + k * poll_interval)" using poll(2) k by simp
      show "\<not> sid_on_target b (0 + j * poll_interval)" if "j < k" for j
      proof -
        have "j * poll_interval < k * poll_interval"
          using that by (simp add: poll_interval_def)
        then show ?thesis using quiet [of j] k by simp
      qed
      show "alive b u" if "u < stop" for u
        using that stop_le by (intro alive_before_deadline [of u b login_timeout]) simp
    qed
    then show ?thesis by (simp add: race_login_first stop_def k)
  qed
qed

lemma deadline_open: "closed_at b = None \<Longrightarrow> deadline b timeout = timeout"
  by (simp add: deadline_def)

lemma resolved_run_succeeds:
  assumes "race_login b = Resolved t" and "closed_at b = None"
  shows "outcome (runAuthentication mgr b now fs) = Inr ()"
proof -
  have "\<exists>te. fst (wait_for_login b) = Inr te"
    using assms by (simp add: wait_for_login_def alive_def)
  then obtain te where "fst (wait_for_login b) = Inr te" ..
  then show ?thesis using run_success [of b te mgr now fs] by simp
qed


text \<open>
  Claim C7. The wait for the login is one bounded wait over all four signals. The timeout is
  five minutes, and in every run the race settles no later than that. When no signal fires
  before the deadline, the race rejects at the deadline, which is the full five minutes
  while the browser stays open, and the run fails with \<open>AuthenticationTimeout\<close> and persists
  nothing. When a signal fires before the deadline, the race resolves at the time of the
  earliest one, whichever of the four it is, and the run goes on to success while the browser
  stays open.
\<close>

theorem login_wait_bounded:
  "login_timeout = 5 * 60 * 1000 \<and>
   settle_time (race_login b) \<le> login_timeout \<and>
   ((\<forall>t. url_signal b = Some t \<longrightarrow> login_timeout \<le> t) \<and>
    (\<forall>t. main_signal b = Some t \<longrightarrow> login_timeout \<le> t) \<and>
    (\<forall>t. account_signal b = Some t \<longrightarrow> login_timeout \<le> t) \<and>
    (\<forall>k. k * poll_interval < login_timeout \<longrightarrow> \<not> sid_on_target b (k * poll_interval)) \<longrightarrow>
      outcome (runAuthentication mgr b now fs) = Inl AuthenticationTimeout \<and>
      fs_after (runAuthentication mgr b now fs) = fs) \<and>
   ((\<forall>t. t < deadline b login_timeout \<longrightarrow> \<not> signal_at b t) \<longrightarrow>
      race_login b = Rejected (deadline b login_timeout) \<and>
      outcome (runAuthentication mgr b now fs) = Inl AuthenticationTimeout \<and>
      fs_after (runAuthentication mgr b now fs) = fs) \<and>
   (closed_at b = None \<longrightarrow> deadline b login_timeout = login_timeout) \<and>
   (t < deadline b login_timeout \<and> signal_at b t \<and> (\<forall>t'. t' < t \<longrightarrow> \<not> signal_at b t') \<longrightarrow>
      race_login b = Resolved t \<and>
      (closed_at b = None \<longrightarrow> outcome (runAuthentication mgr b now fs) = Inr ()))"
proof -
  have a: "login_timeout = 5 * 60 * 1000" by (simp add: login_timeout_def)
  have b: "settle_time (race_login b) \<le> login_timeout" by (rule race_login_bound)
  have c: "outcome (runAuthentication mgr b now fs) = Inl AuthenticationTimeout \<and>
           fs_after (runAuthentication mgr b now fs) = fs"
    if h: "(\<forall>t. url_signal b = Some t \<longrightarrow> login_timeout \<le> t) \<and>
      (\<forall>t. main_signal b = Some t \<longrightarrow> login_timeout \<le> t) \<and>
      (\<forall>t. account_signal b = Some t \<longrightarrow> login_timeout \<le> t) \<and>
      (\<forall>k. k * poll_interval < login_timeout \<longrightarrow> \<not> sid_on_target b (k * poll_interval))"
  proof -
    from h have "race_login b = Rejected (deadline b login_timeout)"
      by (intro race_login_timeout) simp_all
    then have "fst (wait_for_login b) = Inl AuthenticationTimeout"
      by (simp add: wait_for_login_def)
    then show ?thesis using run_failure by blast
  qed
  have d: "race_login b = Rejected (deadline b login_timeout) \<and>
           outcome (runAuthentication mgr b now fs) = Inl AuthenticationTimeout \<and>
           fs_after (runAuthentication mgr b now fs) = fs"
    if h: "\<forall>t. t < deadline b login_timeout \<longrightarrow> \<not> signal_at b t"
  proof -
    have r: "race_login b = Rejected (deadline b login_timeout)"
      by (rule race_login_rejected [OF h])
    then have "fst (wait_for_login b) = Inl AuthenticationTimeout"
      by (simp add: wait_for_login_def)
    with r show ?thesis using run_failure by blast
  qed
  have e: "closed_at b = None \<longrightarrow> deadline b login_timeout = login_timeout"
    by (simp add: deadline_open)
  have f: "race_login b = Resolved t \<and>
           (closed_at b = None \<longrightarrow> outcome (runAuthentication mgr b now fs) = Inr ())"
    if h: "t < deadline b login_timeout \<and> signal_at b t \<and> (\<forall>t'. t' < t \<longrightarrow> \<not> signal_at b t')"
  proof -
    have "race_login b = Resolved t"
      using h by (intro race_login_resolved) simp_all
    then show ?thesis using resolved_run_succeeds by blast
  qed
  show ?thesis
    using a b c d e f by (intro conjI impI) blast+
qed

lemma silent_browser_quiet: "\<not> signal_at silent_browser t"
  by (simp add: signal_at_def silent_browser_def sid_on_target_def has_sid_def)

lemma poll_browser_signal:
  "signal_at poll_browser 4000 \<and> (\<forall>t'. t' < 4000 \<longrightarrow> \<not> signal_at poll_browser t')"
proof (intro conjI allI impI)
  show "signal_at poll_browser 4000"
    by (simp add: signal_at_def poll_browser_def sid_on_target_def has_sid_def login_jar_def
          youtube_sid_def poll_interval_def str_includes_def)
next
  fix t' :: nat
  assume lt: "t' < 4000"
  show "\<not> signal_at poll_browser t'"
  proof (cases "t' < 3000")
    case True
    then show ?thesis
      by (simp add: signal_at_def poll_browser_def sid_on_target_def str_includes_def)
  next
    case False
    have "\<not> 2000 dvd t'"
    proof
      assume "2000 dvd t'"
      then obtain k where k: "t' = 2000 * k" unfolding dvd_def by blast
      from lt k have "k < 2" by simp
      moreover from False k have "2 \<le> k" by simp
      ultimately show False by simp
    qed
    then show ?thesis
      by (simp add: signal_at_def poll_browser_def poll_interval_def)
  qed
qed

theorem login_wait_bounded_witness:
  "settle_time (race_login silent_browser) \<le> login_timeout \<and>
   outcome (runAuthentication (new_AuthManager ''/home/u'') silent_browser example_clock empty_fs) =
     Inl AuthenticationTimeout \<and>
   fs_after (runAuthentication (new_AuthManager ''/home/u'') silent_browser example_clock empty_fs) =
     empty_fs \<and>
   race_login silent_browser = Rejected 300000 \<and>
   race_login poll_browser = Resolved 4000 \<and>
   outcome (runAuthentication (new_AuthManager ''/home/u'') poll_browser example_clock empty_fs) =
     Inr ()"
proof -
  have h: "(\<forall>t. url_signal silent_browser = Some t \<longrightarrow> login_timeout \<le> t) \<and>
    (\<forall>t. main_signal silent_browser = Some t \<longrightarrow> login_timeout \<le> t) \<and>
    (\<forall>t. account_signal silent_browser = Some t \<longrightarrow> login_timeout \<le> t) \<and>
    (\<forall>k. k * poll_interval < login_timeout \<longrightarrow>
       \<not> sid_on_target silent_browser (k * poll_interval))"
    by (simp add: silent_browser_def sid_on_target_def has_sid_def)
  have q: "\<forall>t. t < deadline silent_browser login_timeout \<longrightarrow> \<not> signal_at silent_browser t"
    by (simp add: silent_browser_quiet)
  have o: "closed_at silent_browser = None" "closed_at poll_browser = None"
    by (simp_all add: silent_browser_def poll_browser_def)
  have d: "deadline poll_browser login_timeout = 300000" "deadline silent_browser login_timeout = 300000"
    by (simp_all add: deadline_def poll_browser_def silent_browser_def login_timeout_def)
  have p: "4000 < deadline poll_browser login_timeout \<and> signal_at poll_browser 4000 \<and>
           (\<forall>t'. t' < 4000 \<longrightarrow> \<not> signal_at poll_browser t')"
    using poll_browser_signal by (simp add: d)
  from login_wait_bounded [of silent_browser "new_AuthManager ''/home/u''" example_clock empty_fs 0]
    h q
  have s: "settle_time (race_login silent_browser) \<le> login_timeout \<and>
    outcome (runAuthentication (new_AuthManager ''/home/u'') silent_browser example_clock empty_fs) =
      Inl AuthenticationTimeout \<and>
    fs_after (runAuthentication (new_AuthManager ''/home/u'') silent_browser example_clock empty_fs) =
      empty_fs \<and>
    race_login silent_browser = Rejected (deadline silent_browser login_timeout)"
    by blast
  from login_wait_bounded [of poll_browser "new_AuthManager ''/home/u''" example_clock empty_fs 4000]
    p o(2)
  have r: "race_login poll_browser = Resolved 4000 \<and>
    outcome (runAuthentication (new_AuthManager ''/home/u'') poll_browser example_clock empty_fs) =
      Inr ()"
    by blast
  from s d(2) have s': "race_login silent_browser = Rejected 300000" by simp
  from s s' r show ?thesis by blast
qed

lemma pad_dec_2: "pad_dec 2 n = [digit_char (n div 10 mod 10), digit_char (n mod 10)]"
proof -
  have "pad_dec (Suc (Suc 0)) n = [digit_char (n div 10 mod 10), digit_char (n mod 10)]"
    by simp
  then show ?thesis by (simp only: numeral_2_eq_2)
qed

lemma pad_dec_3:
  "pad_dec 3 n = [digit_char (n div 10 div 10 mod 10), digit_char (n div 10 mod 10), digit_char (n mod 10)]"
proof -
  have "pad_dec (Suc (Suc (Suc 0))) n =
          [digit_char (n div 10 div 10 mod 10), digit_char (n div 10 mod 10), digit_char (n mod 10)]"
    by (simp only: pad_dec.simps append.simps)
  then show ?thesis by (simp only: numeral_3_eq_3)
qed

lemma pad_dec_4:
  "pad_dec 4 n =
     [digit_char (n div 10 div 10 div 10 mod 10), digit_char (n div 10 div 10 mod 10),
      digit_char (n div 10 mod 10), digit_char (n mod 10)]"
proof -
  have e: "(4 :: nat) = Suc (Suc (Suc (Suc 0)))" by simp
  show ?thesis by (subst e) (simp only: pad_dec.simps append.simps)
qed

lemma example_clock_iso: "toISOString example_clock = ''2026-01-09T03:04:05.067Z''"
  by (simp add: toISOString_def example_clock_def year_string_def pad_dec_2 pad_dec_3 pad_dec_4
        digit_char_def)

theorem persisted_record_shape_witness:
  "read_json
     (fs_after (runAuthentication (new_AuthManager ''/home/u'') login_browser example_clock empty_fs))
     (authPath (new_AuthManager ''/home/u'')) =
     Inr [(''cookies'', ''SID=b; NID=1''), (''updatedAt'', ''2026-01-09T03:04:05.067Z'')] \<and>
   is_iso8601 ''2026-01-09T03:04:05.067Z''"
proof -
  from persisted_record_shape [OF login_browser_wait, of "new_AuthManager ''/home/u''"
      example_clock empty_fs]
  show ?thesis
    by (simp add: login_browser_map format_entry_def example_clock_iso)
qed


section \<open>Domain scoping and required cookies\<close>

lemma map_set_entries: "set (map_set m k v) \<subseteq> insert (k, v) (set m)"
  by (induction m) (auto split: if_splits)

lemma cookieMap_fold_entries:
  "set (foldl (\<lambda>m c. map_set m (c_name c) (c_value c)) m cs) \<subseteq>
     set m \<union> set (map (\<lambda>c. (c_name c, c_value c)) cs)"
proof (induction cs arbitrary: m)
  case Nil
  show ?case by simp
next
  case (Cons c cs)
  have "set (foldl (\<lambda>m c. map_set m (c_name c) (c_value c)) (map_set m (c_name c) (c_value c)) cs) \<subseteq>
          set (map_set m (c_name c) (c_value c)) \<union> set (map (\<lambda>c. (c_name c, c_value c)) cs)"
    by (rule Cons.IH)
  with map_set_entries [of m "c_name c" "c_value c"] show ?case by auto
qed

lemma cookieMap_entries:
  "e \<in> set (cookieMap_of cs) \<Longrightarrow> \<exists>c \<in> set cs. e = (c_name c, c_value c)"
  using cookieMap_fold_entries [of "[]" cs] by (auto simp: cookieMap_of_def)

lemma filter_removeAll_other: "\<not> P c \<Longrightarrow> filter P (removeAll c xs) = filter P xs"
  by (induction xs) auto

lemma saved_cookie_string:
  "fst (wait_for_login b) = Inr te \<Longrightarrow>
   getSavedCookies mgr (fs_after (runAuthentication mgr b now fs)) =
     Inr (JsString (cookieString_of (cookieMap_of (allCookies_at b te))))"
  using run_success [of b te mgr now fs] by (simp add: getSavedCookies_saved)

lemma allCookies_playwright:
  "affects b = cookie_applies \<Longrightarrow>
   set (allCookies_at b te) =
     {c' \<in> set (jar_at b te). domain_matches (c_domain c') target_host \<and> prefix (c_path c') ''/''}"
  by (auto simp: allCookies_at_def cookie_applies_target)

text \<open>
  Claim C2, as amended. With Playwright's rule for \<open>context.cookies(url)\<close>, a cookie of the
  browser's full jar whose domain does not match the target host, being neither the host
  nor one of its parent domains, never reaches the cookie set: it is not among the cookies
  read for the extraction, the persisted cookie string is the one the jar without that
  cookie gives, and every entry of the cookie set is the name and value of a cookie of the
  jar whose domain matches the target host. The cookies read are exactly those of the jar
  whose domain matches the target host and whose path is the root.
\<close>

theorem cookies_scoped_to_target:
  assumes "affects b = cookie_applies"
    and "fst (wait_for_login b) = Inr te"
    and "c \<in> set (jar_at b te)"
    and "\<not> domain_matches (c_domain c) target_host"
  shows "c \<notin> set (allCookies_at b te) \<and>
         getSavedCookies mgr (fs_after (runAuthentication mgr b now fs)) =
           Inr (JsString (cookieString_of (cookieMap_of
                  (filter (cookie_applies target_url) (removeAll c (jar_at b te)))))) \<and>
         (\<forall>e \<in> set (cookieMap_of (allCookies_at b te)).
            \<exists>c' \<in> set (jar_at b te).
               domain_matches (c_domain c') target_host \<and> e = (c_name c', c_value c')) \<and>
         set (allCookies_at b te) =
           {c' \<in> set (jar_at b te).
              domain_matches (c_domain c') target_host \<and> prefix (c_path c') ''/''}"
proof (intro conjI ballI)
  have no: "\<not> cookie_applies target_url c"
    using assms(4) by (simp add: cookie_applies_target)
  show "c \<notin> set (allCookies_at b te)"
    using no by (simp add: allCookies_at_def assms(1))
  have "filter (cookie_applies target_url) (removeAll c (jar_at b te)) = allCookies_at b te"
    unfolding allCookies_at_def assms(1)
    using no by (rule filter_removeAll_other [of "cookie_applies target_url" c "jar_at b te"])
  then show "getSavedCookies mgr (fs_after (runAuthentication mgr b now fs)) =
           Inr (JsString (cookieString_of (cookieMap_of
                  (filter (cookie_applies target_url) (removeAll c (jar_at b te))))))"
    using saved_cookie_string [OF assms(2), of mgr now fs] by simp
  show "set (allCookies_at b te) =
           {c' \<in> set (jar_at b te).
              domain_matches (c_domain c') target_host \<and> prefix (c_path c') ''/''}"
    by (rule allCookies_playwright [OF assms(1)])
next
  fix e
  assume "e \<in> set (cookieMap_of (allCookies_at b te))"
  then obtain c' where "c' \<in> set (allCookies_at b te)" "e = (c_name c', c_value c')"
    using cookieMap_entries by blast
  then show "\<exists>c' \<in> set (jar_at b te).
               domain_matches (c_domain c') target_host \<and> e = (c_name c', c_value c')"
    using allCookies_playwright [OF assms(1), of te] by auto
qed

lemma login_jar_without_youtube:
  "filter (cookie_applies target_url) (removeAll youtube_sid (jar_at login_browser 5000)) =
     [\<lparr> c_name = ''SID'', c_value = ''a'', c_domain = ''.google.com'', c_path = ''/'',
        c_secure = True \<rparr>,
      \<lparr> c_name = ''NID'', c_value = ''1'', c_domain = ''notebooklm.google.com'', c_path = ''/'',
        c_secure = True \<rparr>,
      \<lparr> c_name = ''SID'', c_value = ''b'', c_domain = ''notebooklm.google.com'', c_path = ''/'',
        c_secure = True \<rparr>]"
  by (simp add: login_browser_def login_jar_def youtube_sid_def cookie_applies_target
        domain_matches_examples)

theorem cookies_scoped_to_target_witness:
  "youtube_sid \<in> set (jar_at login_browser 5000) \<and>
   youtube_sid \<notin> set (allCookies_at login_browser 5000) \<and>
   getSavedCookies (new_AuthManager ''/home/u'')
     (fs_after (runAuthentication (new_AuthManager ''/home/u'') login_browser example_clock empty_fs)) =
     Inr (JsString ''SID=b; NID=1'')"
proof -
  have r: "affects login_browser = cookie_applies"
    by (simp add: login_browser_def)
  have a: "youtube_sid \<in> set (jar_at login_browser 5000)"
    by (simp add: login_browser_def login_jar_def)
  have b: "\<not> domain_matches (c_domain youtube_sid) target_host"
    by (simp add: youtube_sid_def domain_matches_examples)
  from cookies_scoped_to_target [OF r login_browser_wait a b, of "new_AuthManager ''/home/u''"
      example_clock empty_fs]
  have x: "youtube_sid \<notin> set (allCookies_at login_browser 5000)"
    and y: "getSavedCookies (new_AuthManager ''/home/u'')
       (fs_after (runAuthentication (new_AuthManager ''/home/u'') login_browser example_clock
          empty_fs)) =
       Inr (JsString (cookieString_of (cookieMap_of
              (filter (cookie_applies target_url) (removeAll youtube_sid (jar_at login_browser 5000))))))"
    by blast+
  have "cookieString_of (cookieMap_of
          (filter (cookie_applies target_url) (removeAll youtube_sid (jar_at login_browser 5000)))) =
        ''SID=b; NID=1''"
    by (simp add: login_jar_without_youtube cookieMap_of_def cookieString_of_def format_entry_def)
  with a x y show ?thesis by simp
qed

lemma parent_domain_browser_wait: "fst (wait_for_login parent_domain_browser) = Inr 5000"
proof -
  have "race_login parent_domain_browser = Resolved 5000"
    by (simp add: race_login_def waiter_def deadline_def parent_domain_browser_def
          login_timeout_def earliest_def checkLoop.simps poll_interval_def alive_def
          sid_on_target_def str_includes_def Let_def)
  then show ?thesis
    by (simp add: wait_for_login_def)
      (simp add: parent_domain_browser_def google_sid_def has_sid_def)
qed

text \<open>
  As stated, with only cookies of the exact target domain read, the claim fails on a cookie
  of the parent domain: its domain is not the target host, and it is read and persisted.
\<close>

theorem parent_domain_cookie_counterexample:
  "c_domain google_sid = ''.google.com'' \<and>
   c_domain google_sid \<noteq> target_host \<and>
   affects parent_domain_browser = cookie_applies \<and>
   fst (wait_for_login parent_domain_browser) = Inr 5000 \<and>
   google_sid \<in> set (jar_at parent_domain_browser 5000) \<and>
   google_sid \<in> set (allCookies_at parent_domain_browser 5000) \<and>
   cookieMap_of (allCookies_at parent_domain_browser 5000) = [(''SID'', ''a'')] \<and>
   getSavedCookies (new_AuthManager ''/home/u'')
     (fs_after (runAuthentication (new_AuthManager ''/home/u'') parent_domain_browser
        example_clock empty_fs)) =
     Inr (JsString ''SID=a'')"
proof -
  have cs: "allCookies_at parent_domain_browser 5000 = [google_sid]"
    by (simp add: allCookies_at_def parent_domain_browser_def cookie_applies_target)
      (simp add: google_sid_def domain_matches_examples)
  have m: "cookieMap_of [google_sid] = [(''SID'', ''a'')]"
    by (simp add: cookieMap_of_def google_sid_def)
  have "getSavedCookies (new_AuthManager ''/home/u'')
     (fs_after (runAuthentication (new_AuthManager ''/home/u'') parent_domain_browser
        example_clock empty_fs)) =
     Inr (JsString (cookieString_of (cookieMap_of (allCookies_at parent_domain_browser 5000))))"
    by (rule saved_cookie_string [OF parent_domain_browser_wait])
  then show ?thesis
    by (simp add: cs m parent_domain_browser_wait cookieString_of_def format_entry_def)
      (simp add: parent_domain_browser_def google_sid_def target_host_def)
qed

lemma missingCookies_iff:
  "n \<in> set (missingCookies (cookieMap_of cs)) \<longleftrightarrow>
     n \<in> set REQUIRED_COOKIES \<and> n \<notin> set (map c_name cs)"
proof -
  have "set (map fst (cookieMap_of cs)) = set (map c_name cs)"
    unfolding cookieMap_of_def using foldl_set_keys [of "[]" cs] by simp
  then show ?thesis
    by (simp add: missingCookies_def map_has_iff del: set_map)
qed

text \<open>
  Claim C8. When a required cookie name is absent from the extracted cookies, the run
  writes the warning that lists the missing names to the console and goes on: the cookie
  string is persisted and can be loaded, and the run ends in success.
\<close>

theorem missing_required_is_warning:
  assumes "fst (wait_for_login b) = Inr te"
    and "n \<in> set REQUIRED_COOKIES"
    and "n \<notin> set (map c_name (allCookies_at b te))"
  shows "outcome (runAuthentication mgr b now fs) = Inr () \<and>
         getSavedCookies mgr (fs_after (runAuthentication mgr b now fs)) =
           Inr (JsString (cookieString_of (cookieMap_of (allCookies_at b te)))) \<and>
         n \<in> set (missingCookies (cookieMap_of (allCookies_at b te))) \<and>
         console (runAuthentication mgr b now fs) =
           [''Warning: Missing required cookies: '' @
              join '', '' (missingCookies (cookieMap_of (allCookies_at b te))),
            ''Extracted '' @ show_nat (length (cookieMap_of (allCookies_at b te))) @
              '' unique cookies for notebooklm.google.com'',
            ''Authentication successful! Cookies saved to '' @ authPath mgr]"
proof -
  have m: "n \<in> set (missingCookies (cookieMap_of (allCookies_at b te)))"
    using assms(2,3) by (simp only: missingCookies_iff) simp
  then have ne: "missingCookies (cookieMap_of (allCookies_at b te)) \<noteq> []" by auto
  show ?thesis
    using run_success [OF assms(1), of mgr now fs] saved_cookie_string [OF assms(1), of mgr now fs] m ne
    by simp
qed

theorem missing_required_is_warning_witness:
  "outcome (runAuthentication (new_AuthManager ''/home/u'') login_browser example_clock empty_fs) =
     Inr () \<and>
   getSavedCookies (new_AuthManager ''/home/u'')
     (fs_after (runAuthentication (new_AuthManager ''/home/u'') login_browser example_clock empty_fs)) =
     Inr (JsString ''SID=b; NID=1'') \<and>
   console (runAuthentication (new_AuthManager ''/home/u'') login_browser example_clock empty_fs) =
     [''Warning: Missing required cookies: HSID, SSID, APISID, SAPISID'',
      ''Extracted 2 unique cookies for notebooklm.google.com'',
      ''Authentication successful! Cookies saved to /home/u/.notebooklm-mcp/auth.json'']"
proof -
  have a: "''HSID'' \<in> set REQUIRED_COOKIES" by (simp add: REQUIRED_COOKIES_def)
  have b: "''HSID'' \<notin> set (map c_name (allCookies_at login_browser 5000))"
    by (simp add: login_browser_cookies)
  have two: "show_nat (Suc (Suc 0)) = ''2''" by (simp add: show_nat.simps digit_char_def)
  from missing_required_is_warning [OF login_browser_wait a b, of "new_AuthManager ''/home/u''"
      example_clock empty_fs]
  show ?thesis
    by (simp add: login_browser_map cookieString_of_def format_entry_def missingCookies_def
          REQUIRED_COOKIES_def two new_AuthManager_def path_join_def)
qed


section \<open>Bootstrap\<close>

text \<open>
  Claim C3. When the fetch of the entry page resolved to the identity provider, the
  bootstrap fails with \<open>SessionExpired\<close> and leaves the context as it was, whatever the
  body contains; on a context never initialised, neither token is set afterwards.
\<close>

theorem bootstrap_fails_closed_on_redirect:
  assumes "redirected_to_login r"
  shows "bootstrap scan_csrf scan_sid ctx r = (Inl SessionExpired, ctx) \<and>
         csrfToken (snd (bootstrap scan_csrf scan_sid fresh_context r)) = None \<and>
         sessionId (snd (bootstrap scan_csrf scan_sid fresh_context r)) = None \<and>
         \<not> initialized (snd (bootstrap scan_csrf scan_sid fresh_context r))"
  using assms by (simp add: bootstrap_def fresh_context_def)

lemma redirected_response_scan:
  "redirected_to_login redirected_response \<and>
   scan_csrf_marker (html redirected_response) = Some ''csrf123'' \<and>
   scan_sid_marker (html redirected_response) = Some ''sid456''"
  by (simp add: redirected_to_login_def redirected_response_def str_includes_def marker_text_def
        scan_csrf_marker_def scan_sid_marker_def scan_marker_def dquote_def Let_def)

theorem bootstrap_fails_closed_on_redirect_witness:
  "scan_csrf_marker (html redirected_response) = Some ''csrf123'' \<and>
   bootstrap scan_csrf_marker scan_sid_marker fresh_context redirected_response =
     (Inl SessionExpired, \<lparr> csrfToken = None, sessionId = None, initialized = False \<rparr>)"
proof -
  have r: "redirected_to_login redirected_response"
    using redirected_response_scan by simp
  from bootstrap_fails_closed_on_redirect [OF r, of scan_csrf_marker scan_sid_marker fresh_context]
  show ?thesis
    using redirected_response_scan by (simp add: fresh_context_def)
qed

text \<open>
  Claim C4, as amended. After a bootstrap attempt the session identifier is never set
  without the anti-forgery token. A failed attempt returns \<open>SessionExpired\<close> and leaves the
  context unchanged; a successful one sets the token and \<open>initialized\<close> in the same step and
  sets the session identifier to what the scan of the page found, which may be nothing.
\<close>

theorem bootstrap_tokens_consistent:
  assumes "sessionId ctx \<noteq> None \<longrightarrow> csrfToken ctx \<noteq> None"
  shows "(sessionId (snd (bootstrap scan_csrf scan_sid ctx r)) \<noteq> None \<longrightarrow>
            csrfToken (snd (bootstrap scan_csrf scan_sid ctx r)) \<noteq> None) \<and>
         (case fst (bootstrap scan_csrf scan_sid ctx r) of
            Inl e \<Rightarrow> e = SessionExpired \<and> snd (bootstrap scan_csrf scan_sid ctx r) = ctx
          | Inr tokens \<Rightarrow>
              csrfToken (snd (bootstrap scan_csrf scan_sid ctx r)) = Some (fst tokens) \<and>
              sessionId (snd (bootstrap scan_csrf scan_sid ctx r)) = snd tokens \<and>
              snd tokens = scan_sid (html r) \<and>
              initialized (snd (bootstrap scan_csrf scan_sid ctx r)))"
  using assms by (simp add: bootstrap_def split: option.splits)

lemma entry_response_scan:
  "\<not> redirected_to_login entry_response \<and>
   scan_csrf_marker (html entry_response) = Some ''csrf123'' \<and>
   scan_sid_marker (html entry_response) = Some ''sid456''"
  by (simp add: redirected_to_login_def entry_response_def str_includes_def marker_text_def
        scan_csrf_marker_def scan_sid_marker_def scan_marker_def dquote_def Let_def)

theorem bootstrap_tokens_consistent_witness:
  "fst (bootstrap scan_csrf_marker scan_sid_marker fresh_context entry_response) =
     Inr (''csrf123'', Some ''sid456'') \<and>
   snd (bootstrap scan_csrf_marker scan_sid_marker fresh_context entry_response) =
     \<lparr> csrfToken = Some ''csrf123'', sessionId = Some ''sid456'', initialized = True \<rparr>"
proof -
  have pre: "sessionId fresh_context \<noteq> None \<longrightarrow> csrfToken fresh_context \<noteq> None"
    by (simp add: fresh_context_def)
  have res: "fst (bootstrap scan_csrf_marker scan_sid_marker fresh_context entry_response) =
               Inr (''csrf123'', Some ''sid456'')"
    using entry_response_scan by (simp add: bootstrap_def)
  from bootstrap_tokens_consistent [OF pre, of scan_csrf_marker scan_sid_marker entry_response]
  have "csrfToken (snd (bootstrap scan_csrf_marker scan_sid_marker fresh_context entry_response)) =
          Some ''csrf123'' \<and>
        sessionId (snd (bootstrap scan_csrf_marker scan_sid_marker fresh_context entry_response)) =
          Some ''sid456'' \<and>
        initialized (snd (bootstrap scan_csrf_marker scan_sid_marker fresh_context entry_response))"
    unfolding res by simp
  then show ?thesis
    using res by (cases "snd (bootstrap scan_csrf_marker scan_sid_marker fresh_context entry_response)") simp
qed

text \<open>
  As stated, with the two tokens always set or absent together, the claim fails on a page
  that carries the anti-forgery token and no session identifier: the bootstrap succeeds,
  and the context holds the token without a session identifier.
\<close>

theorem bootstrap_token_without_session_counterexample:
  "\<not> redirected_to_login token_only_response \<and>
   fst (bootstrap scan_csrf_marker scan_sid_marker fresh_context token_only_response) =
     Inr (''csrf123'', None) \<and>
   csrfToken (snd (bootstrap scan_csrf_marker scan_sid_marker fresh_context token_only_response)) =
     Some ''csrf123'' \<and>
   sessionId (snd (bootstrap scan_csrf_marker scan_sid_marker fresh_context token_only_response)) =
     None"
  by (simp add: bootstrap_def redirected_to_login_def token_only_response_def str_includes_def
        marker_text_def scan_csrf_marker_def scan_sid_marker_def scan_marker_def dquote_def
        fresh_context_def Let_def)

section \<open>The diagnostics and the dedup script on a saved record\<close>

lemma bootstrap_fails_iff:
  "fst (bootstrap scan_csrf scan_sid ctx r) = Inl SessionExpired \<longleftrightarrow>
     redirected_to_login r \<or> scan_csrf (html r) = None"
  by (simp add: bootstrap_def split: option.splits)

lemma diagnose_redirected: "diagnose r = Redirected \<longleftrightarrow> redirected_to_login r"
  by (simp add: diagnose_def)

lemma fix_cookies_script_on_record:
  assumes "files fs p = Some (stringify (authData s now0))"
  shows "fix_outcome (fix_cookies_script p now fs) = Inr () \<and>
         read_json (fix_fs (fix_cookies_script p now fs)) p =
           Inr (authData (deduped (fixCookies s)) now)"
proof -
  have "read_json fs p = Inr (authData s now0)"
    using assms by (rule read_json_record)
  moreover have "get_property (authData s now0) ''cookies'' = JsString s"
    by (simp add: get_property_def authData_def)
  moreover have "read_json (writeFileSync fs p (stringify (authData (deduped (fixCookies s)) now))) p =
                   Inr (authData (deduped (fixCookies s)) now)"
    by (rule read_json_record) (simp add: writeFileSync_def)
  ultimately show ?thesis
    by (simp add: fix_cookies_script_def Let_def)
qed

end
